theory Spec2Isabelle
  imports Main "HOL-Library.Sublist"
begin

section \<open>Strings\<close>

text \<open>
  A JavaScript string is a sequence of UTF-16 code units; \<open>length\<close>, \<open>slice\<close>, \<open>replaceAll\<close>
  and a regular expression without the \<open>u\<close> flag all work on code units. A \<^typ>\<open>char\<close>
  stands for one code unit (those below 256), a \<^typ>\<open>string\<close> for a JavaScript string.
\<close>

definition newline :: string where
  "newline = [CHR 0x0A]"

text \<open>\<open>s.slice(n)\<close> for an index \<open>n \<ge> 0\<close>.\<close>

definition slice_from :: "nat \<Rightarrow> string \<Rightarrow> string" where
  "slice_from n s = drop n s"

text \<open>\<open>s.slice(-n)\<close>: the start is \<open>max (length s - n) 0\<close>, and \<open>-0\<close> is \<open>0\<close>.\<close>

definition slice_last :: "nat \<Rightarrow> string \<Rightarrow> string" where
  "slice_last n s = (if n = 0 then s else drop (length s - n) s)"

text \<open>The decimal digits of a template literal's \<open>${n}\<close>.\<close>

definition digit :: "nat \<Rightarrow> char" where
  "digit d = ''0123456789'' ! d"

fun decimal :: "nat \<Rightarrow> string" where
  "decimal n = (if n < 10 then [digit n] else decimal (n div 10) @ [digit (n mod 10)])"

declare decimal.simps [simp del]

text \<open>\<open>xs.join(', ')\<close>.\<close>

fun join :: "string list \<Rightarrow> string" where
  "join [] = []"
| "join [x] = x"
| "join (x # y # ys) = x @ '', '' @ join (y # ys)"

text \<open>
  \<open>toUpperCase\<close>, on the ASCII letters: the drivers apply it to the names of the span
  types only.
\<close>

definition toUpperCase :: "string \<Rightarrow> string" where
  "toUpperCase s =
     map (\<lambda>c. case map_of (zip ''abcdefghijklmnopqrstuvwxyz'' ''ABCDEFGHIJKLMNOPQRSTUVWXYZ'') c of
                 Some u \<Rightarrow> u
               | None \<Rightarrow> c) s"

subsection \<open>Global replacement of a literal\<close>

text \<open>
  The scan of a global replacement for a non-empty search value: at each position, from
  the left, an occurrence of the value is replaced and the scan goes on behind it.
\<close>

fun replace_scan :: "string \<Rightarrow> string \<Rightarrow> string \<Rightarrow> string" where
  "replace_scan v m [] = []"
| "replace_scan v m (c # cs) =
     (if prefix v (c # cs) then m @ replace_scan v m (drop (length v - 1) cs)
      else c # replace_scan v m cs)"

text \<open>
  \<open>text.replaceAll(searchValue, replaceValue)\<close> with two strings. The empty search value
  matches before every code unit and at the end. The replacement is taken literally: no
  marker of the drivers holds a \<open>$\<close>.
\<close>

definition replaceAll :: "string \<Rightarrow> string \<Rightarrow> string \<Rightarrow> string" where
  "replaceAll text searchValue replaceValue =
     (if searchValue = [] then concat (map (\<lambda>c. replaceValue @ [c]) text) @ replaceValue
      else replace_scan searchValue replaceValue text)"

text \<open>
  \<open>text.replace(new RegExp(escaped, 'g'), replaceValue)\<close>, where \<open>escaped\<close> is the value
  with a backslash before each of \<open>. * + ? ^ $ { } ( ) | [ ] \\<close>: every syntax character
  of a pattern is escaped, so the pattern matches the value literally, code unit by code
  unit, and the global replacement is the scan above. The caller skips the empty value.
\<close>

definition replace_escaped :: "string \<Rightarrow> string \<Rightarrow> string \<Rightarrow> string" where
  "replace_escaped text v replaceValue = replace_scan v replaceValue text"

section \<open>Detected spans and redaction\<close>

datatype pii_type = email | phone | ssn | credit_card

datatype conf_type = financial | product | rnd | contact | strategy

text \<open>An item of the detector's answer: \<open>{type, value}\<close>.\<close>

datatype 'k item = Item (type_of: 'k) (value_of: string)

fun pii_name :: "pii_type \<Rightarrow> string" where
  "pii_name email = ''email''"
| "pii_name phone = ''phone''"
| "pii_name ssn = ''ssn''"
| "pii_name credit_card = ''credit_card''"

fun conf_name :: "conf_type \<Rightarrow> string" where
  "conf_name financial = ''financial''"
| "conf_name product = ''product''"
| "conf_name rnd = ''rnd''"
| "conf_name contact = ''contact''"
| "conf_name strategy = ''strategy''"

fun REDACTION_MARKERS :: "conf_type \<Rightarrow> string" where
  "REDACTION_MARKERS financial = ''[REDACTED:FINANCIAL]''"
| "REDACTION_MARKERS product = ''[REDACTED:PRODUCT]''"
| "REDACTION_MARKERS rnd = ''[REDACTED:RND]''"
| "REDACTION_MARKERS contact = ''[REDACTED:CONTACT]''"
| "REDACTION_MARKERS strategy = ''[REDACTED:STRATEGY]''"

text \<open>
  \<open>[...items].sort((a, b) => b.value.length - a.value.length)\<close>: a stable sort, longest
  value first.
\<close>

definition sort_longest_first :: "'k item list \<Rightarrow> 'k item list" where
  "sort_longest_first items = sort_key (\<lambda>i. - int (length (value_of i))) items"

definition redactConfidential :: "string \<Rightarrow> conf_type item list \<Rightarrow> string" where
  "redactConfidential text items =
     (if items = [] then text
      else foldl (\<lambda>redactedText item.
                    if value_of item = [] then redactedText
                    else replace_escaped redactedText (value_of item)
                           (REDACTION_MARKERS (type_of item)))
             text (sort_longest_first items))"

definition pii_marker :: "pii_type \<Rightarrow> string" where
  "pii_marker t = ''[REDACTED:'' @ toUpperCase (pii_name t) @ '']''"

definition redactPII :: "string \<Rightarrow> pii_type item list \<Rightarrow> string" where
  "redactPII text piiItems =
     (if piiItems = [] then text
      else foldl (\<lambda>redactedText item.
                    replaceAll redactedText (value_of item) (pii_marker (type_of item)))
             text piiItems)"

section \<open>Channels, the detection model and the effects of a session\<close>

datatype channel = mainStream | auditStream

datatype operation = Write channel | Close channel

text \<open>What an awaited call can reject with.\<close>

datatype exn = WriteError channel | CloseError channel | GeneratorError

text \<open>
  The effects of a session, in the order they happen: the chunks written to the two
  streams, the attempts that failed, the calls of the detection model and the lines of
  the logger.
\<close>

datatype effect =
    Wrote channel string
  | WriteFailed channel string
  | Closed channel
  | CloseFailed channel
  | Generated string
  | Warned string
  | Errored string

text \<open>
  The collaborators of a session, which the drivers do not implement. \<open>generateObject\<close> is
  the call of the detection model on a text: \<open>None\<close> when the call rejects (transport
  error, timeout, an answer that does not fit the schema), the items of its answer
  otherwise. \<open>fails\<close> tells whether a write or a close on a stream rejects. Both may depend
  on the moment of the call, the number of effects so far.
\<close>

record 'k env =
  generateObject :: "nat \<Rightarrow> string \<Rightarrow> 'k item list option"
  fails :: "nat \<Rightarrow> operation \<Rightarrow> bool"

text \<open>The state of the background task: its effects so far and its two variables.\<close>

record world =
  trace :: "effect list"
  pendingBuffer :: string
  carryTail :: string

text \<open>An awaited computation: it returns a value or rejects, and changes the state.\<close>

type_synonym 'a io = "world \<Rightarrow> (exn + 'a) \<times> world"

definition return :: "'a \<Rightarrow> 'a io" where
  "return x = (\<lambda>w. (Inr x, w))"

definition throw :: "exn \<Rightarrow> 'a io" where
  "throw e = (\<lambda>w. (Inl e, w))"

definition await :: "'a io \<Rightarrow> ('a \<Rightarrow> 'b io) \<Rightarrow> 'b io" where
  "await m f = (\<lambda>w. case m w of (Inl e, w') \<Rightarrow> (Inl e, w') | (Inr x, w') \<Rightarrow> f x w')"

definition try_catch :: "'a io \<Rightarrow> (exn \<Rightarrow> 'a io) \<Rightarrow> 'a io" where
  "try_catch m handler = (\<lambda>w. case m w of (Inl e, w') \<Rightarrow> handler e w' | (Inr x, w') \<Rightarrow> (Inr x, w'))"

definition get :: "(world \<Rightarrow> 'a) \<Rightarrow> 'a io" where
  "get field = (\<lambda>w. (Inr (field w), w))"

definition modify :: "(world \<Rightarrow> world) \<Rightarrow> unit io" where
  "modify f = (\<lambda>w. (Inr (), f w))"

definition log :: "effect \<Rightarrow> unit io" where
  "log e = modify (\<lambda>w. w\<lparr>trace := trace w @ [e]\<rparr>)"

definition stream_write :: "'k env \<Rightarrow> channel \<Rightarrow> string \<Rightarrow> unit io" where
  "stream_write env stream chunk =
     (\<lambda>w. if fails env (length (trace w)) (Write stream)
          then (Inl (WriteError stream), w\<lparr>trace := trace w @ [WriteFailed stream chunk]\<rparr>)
          else (Inr (), w\<lparr>trace := trace w @ [Wrote stream chunk]\<rparr>))"

definition stream_close :: "'k env \<Rightarrow> channel \<Rightarrow> unit io" where
  "stream_close env stream =
     (\<lambda>w. if fails env (length (trace w)) (Close stream)
          then (Inl (CloseError stream), w\<lparr>trace := trace w @ [CloseFailed stream]\<rparr>)
          else (Inr (), w\<lparr>trace := trace w @ [Closed stream]\<rparr>))"

subsection \<open>The generator's stream and the loop over it\<close>

datatype event = text_delta string | finish | other_event

text \<open>One step of the asynchronous iterator: the next event, or a rejection.\<close>

datatype pull = Next event | Rejects

datatype control = Continue | Break

text \<open>\<open>for await (const event of stream) body\<close>; the list's end is the stream's end.\<close>

fun for_await :: "(event \<Rightarrow> control io) \<Rightarrow> pull list \<Rightarrow> unit io" where
  "for_await body [] = return ()"
| "for_await body (Rejects # rest) = throw GeneratorError"
| "for_await body (Next e # rest) =
     await (body e) (\<lambda>ctl. case ctl of Break \<Rightarrow> return () | Continue \<Rightarrow> for_await body rest)"

subsection \<open>The detectors\<close>

text \<open>
  White space and line terminators, as \<open>trim\<close> and the class \<open>\s\<close> of a regular expression
  take them: tab, line feed, vertical tab, form feed, carriage return, space and
  no-break space.
\<close>

definition is_space :: "char \<Rightarrow> bool" where
  "is_space c \<longleftrightarrow> c \<in> set [CHR 0x09, CHR 0x0A, CHR 0x0B, CHR 0x0C, CHR 0x0D, CHR 0x20, CHR 0xA0]"

definition detectPII :: "pii_type env \<Rightarrow> string \<Rightarrow> pii_type item list io" where
  "detectPII env text =
     (\<lambda>w. case generateObject env (length (trace w)) text of
            Some pii \<Rightarrow> (Inr pii, w\<lparr>trace := trace w @ [Generated text]\<rparr>)
          | None \<Rightarrow>
              (Inr [], w\<lparr>trace := trace w @ [Generated text, Warned ''Groq PII detection failed: %o'']\<rparr>))"

definition detectConfidential :: "conf_type env \<Rightarrow> string \<Rightarrow> conf_type item list io" where
  "detectConfidential env text =
     (if text = [] \<or> list_all is_space text then return []
      else (\<lambda>w. case generateObject env (length (trace w)) text of
                   Some items \<Rightarrow> (Inr items, w\<lparr>trace := trace w @ [Generated text]\<rparr>)
                 | None \<Rightarrow>
                     (Inr [], w\<lparr>trace := trace w @
                        [Generated text, Warned ''Groq confidential detection failed: %o'']\<rparr>)))"

section \<open>The confidentiality driver\<close>

definition CHAR_THRESHOLD :: nat where
  "CHAR_THRESHOLD = 200"

definition CARRY_TAIL_LENGTH :: nat where
  "CARRY_TAIL_LENGTH = 64"

text \<open>The lines of the audit stream that carry a count, as their template literals build them.\<close>

definition checking_line :: "string \<Rightarrow> string" where
  "checking_line textToCheck = ''Checking '' @ decimal (length textToCheck) @ '' chars...'' @ newline"

definition emitted_line :: "string \<Rightarrow> string" where
  "emitted_line toEmit = ''Emitted '' @ decimal (length toEmit) @ '' chars.'' @ newline"

definition final_check_line :: "string \<Rightarrow> string" where
  "final_check_line buffer = ''Final check '' @ decimal (length buffer) @ '' chars...'' @ newline"

definition found_conf_line :: "conf_type item list \<Rightarrow> string" where
  "found_conf_line confItems =
     ''Found '' @ decimal (length confItems) @ '' confidential item(s): ''
       @ join (map (\<lambda>c. conf_name (type_of c)) confItems) @ newline"

text \<open>
  \<open>validateAndFlush\<close> reads \<open>carryTail\<close> when it starts; nothing assigns it before the last
  statement.
\<close>

definition validateAndFlush_conf :: "conf_type env \<Rightarrow> string \<Rightarrow> unit io" where
  "validateAndFlush_conf env buffer =
     await (get carryTail) (\<lambda>carry.
     let textToCheck = carry @ buffer in
     await (stream_write env auditStream (checking_line textToCheck)) (\<lambda>_.
     await (detectConfidential env textToCheck) (\<lambda>confItems.
     await (if length confItems > 0
            then await (stream_write env auditStream (found_conf_line confItems))
                   (\<lambda>_. return (redactConfidential textToCheck confItems))
            else await (stream_write env auditStream (''No confidential info found.'' @ newline))
                   (\<lambda>_. return textToCheck)) (\<lambda>sanitized.
     let toEmit = slice_from (length carry) sanitized in
     await (if toEmit \<noteq> []
            then await (stream_write env mainStream toEmit)
                   (\<lambda>_. stream_write env auditStream (emitted_line toEmit))
            else return ()) (\<lambda>_.
     modify (\<lambda>w. w\<lparr>carryTail := slice_last CARRY_TAIL_LENGTH sanitized\<rparr>))))))"

text \<open>
  The body of the loop over the generator's events; the flush of what is left in the
  buffer after the loop; the \<open>catch\<close> block of the task.
\<close>

definition on_event_conf :: "conf_type env \<Rightarrow> event \<Rightarrow> control io" where
  "on_event_conf env ev =
     await (case ev of
              text_delta text \<Rightarrow>
                await (modify (\<lambda>w. w\<lparr>pendingBuffer := pendingBuffer w @ text\<rparr>)) (\<lambda>_.
                await (get pendingBuffer) (\<lambda>buffer.
                if length buffer \<ge> CHAR_THRESHOLD
                then await (validateAndFlush_conf env buffer)
                       (\<lambda>_. modify (\<lambda>w. w\<lparr>pendingBuffer := []\<rparr>))
                else return ()))
            | _ \<Rightarrow> return ())
       (\<lambda>_. if ev = finish then return Break else return Continue)"

definition drain_conf :: "conf_type env \<Rightarrow> unit io" where
  "drain_conf env =
     await (get pendingBuffer) (\<lambda>buffer.
     if length buffer > 0
     then await (stream_write env auditStream (final_check_line buffer))
            (\<lambda>_. validateAndFlush_conf env buffer)
     else return ())"

definition on_error_conf :: "conf_type env \<Rightarrow> exn \<Rightarrow> unit io" where
  "on_error_conf env error =
     await (log (Errored ''Streaming error: %o'')) (\<lambda>_.
     await (stream_close env mainStream) (\<lambda>_.
     stream_close env auditStream))"

text \<open>The background task that the handler passes to \<open>ctx.waitUntil\<close>.\<close>

definition GuardrailStreamer_conf :: "conf_type env \<Rightarrow> pull list \<Rightarrow> unit io" where
  "GuardrailStreamer_conf env fullStream =
     try_catch
       (await (stream_write env auditStream (''Starting confidentiality guardrail...'' @ newline)) (\<lambda>_.
        await (modify (\<lambda>w. w\<lparr>pendingBuffer := [], carryTail := []\<rparr>)) (\<lambda>_.
        await (for_await (on_event_conf env) fullStream) (\<lambda>_.
        await (drain_conf env) (\<lambda>_.
        await (stream_write env auditStream (''Stream complete.'' @ newline)) (\<lambda>_.
        await (stream_close env mainStream) (\<lambda>_.
        stream_close env auditStream)))))))
       (on_error_conf env)"

section \<open>The PII driver\<close>

text \<open>
  The PII driver has the same \<open>CHAR_THRESHOLD\<close> and \<open>CARRY_TAIL_LENGTH\<close> as the
  confidentiality driver, its own detector, redactor and audit lines, and closes each
  stream in a \<open>try\<close> of its own when it has caught an error.
\<close>

definition found_pii_line :: "pii_type item list \<Rightarrow> string" where
  "found_pii_line piiItems =
     ''Found '' @ decimal (length piiItems) @ '' PII item(s): ''
       @ join (map (\<lambda>p. pii_name (type_of p)) piiItems) @ newline"

definition validateAndFlush_pii :: "pii_type env \<Rightarrow> string \<Rightarrow> unit io" where
  "validateAndFlush_pii env buffer =
     await (get carryTail) (\<lambda>carry.
     let textToCheck = carry @ buffer in
     await (stream_write env auditStream (checking_line textToCheck)) (\<lambda>_.
     await (detectPII env textToCheck) (\<lambda>piiItems.
     await (if length piiItems > 0
            then await (stream_write env auditStream (found_pii_line piiItems))
                   (\<lambda>_. return (redactPII textToCheck piiItems))
            else await (stream_write env auditStream (''No PII found.'' @ newline))
                   (\<lambda>_. return textToCheck)) (\<lambda>sanitized.
     let toEmit = slice_from (length carry) sanitized in
     await (if toEmit \<noteq> []
            then await (stream_write env mainStream toEmit)
                   (\<lambda>_. stream_write env auditStream (emitted_line toEmit))
            else return ()) (\<lambda>_.
     modify (\<lambda>w. w\<lparr>carryTail := slice_last CARRY_TAIL_LENGTH sanitized\<rparr>))))))"

definition on_event_pii :: "pii_type env \<Rightarrow> event \<Rightarrow> control io" where
  "on_event_pii env ev =
     await (case ev of
              text_delta text \<Rightarrow>
                await (modify (\<lambda>w. w\<lparr>pendingBuffer := pendingBuffer w @ text\<rparr>)) (\<lambda>_.
                await (get pendingBuffer) (\<lambda>buffer.
                if length buffer \<ge> CHAR_THRESHOLD
                then await (validateAndFlush_pii env buffer)
                       (\<lambda>_. modify (\<lambda>w. w\<lparr>pendingBuffer := []\<rparr>))
                else return ()))
            | _ \<Rightarrow> return ())
       (\<lambda>_. if ev = finish then return Break else return Continue)"

definition drain_pii :: "pii_type env \<Rightarrow> unit io" where
  "drain_pii env =
     await (get pendingBuffer) (\<lambda>buffer.
     if length buffer > 0
     then await (stream_write env auditStream (final_check_line buffer))
            (\<lambda>_. validateAndFlush_pii env buffer)
     else return ())"

definition on_error_pii :: "pii_type env \<Rightarrow> exn \<Rightarrow> unit io" where
  "on_error_pii env error =
     await (log (Errored ''Streaming error: %o'')) (\<lambda>_.
     await (stream_write env auditStream (''Error occurred; closing streams.'' @ newline)) (\<lambda>_.
     await (try_catch (stream_close env mainStream) (\<lambda>_. return ())) (\<lambda>_.
     try_catch (stream_close env auditStream) (\<lambda>_. return ()))))"

definition GuardrailStreamer_pii :: "pii_type env \<Rightarrow> pull list \<Rightarrow> unit io" where
  "GuardrailStreamer_pii env fullStream =
     try_catch
       (await (stream_write env auditStream (''Starting PII guardrail...'' @ newline)) (\<lambda>_.
        await (modify (\<lambda>w. w\<lparr>pendingBuffer := [], carryTail := []\<rparr>)) (\<lambda>_.
        await (for_await (on_event_pii env) fullStream) (\<lambda>_.
        await (drain_pii env) (\<lambda>_.
        await (stream_write env auditStream (''Stream complete.'' @ newline)) (\<lambda>_.
        await (stream_close env mainStream) (\<lambda>_.
        stream_close env auditStream)))))))
       (on_error_pii env)"

section \<open>The PII driver with the sentence policy\<close>

text \<open>
  This driver flushes at a sentence boundary too, keeps a carry tail of 32, and writes
  the whole sanitized text of a flush to the main stream.
\<close>

definition MIN_SENTENCE_CHARS :: nat where
  "MIN_SENTENCE_CHARS = 80"

definition CARRY_TAIL_LENGTH_sent :: nat where
  "CARRY_TAIL_LENGTH_sent = 32"

text \<open>
  \<open>SENTENCE_END.exec(s)\<close> for \<open>/[.!?]\s/\<close>: the index of the leftmost match, or \<open>None\<close> for
  \<open>null\<close>. The expression has no \<open>g\<close> flag, so every call searches from the start.
\<close>

fun SENTENCE_END_exec :: "string \<Rightarrow> nat option" where
  "SENTENCE_END_exec (c # d # cs) =
     (if c \<in> set ''.!?'' \<and> is_space d then Some 0
      else map_option Suc (SENTENCE_END_exec (d # cs)))"
| "SENTENCE_END_exec [c] = None"
| "SENTENCE_END_exec [] = None"

definition validateAndFlush_sent :: "pii_type env \<Rightarrow> string \<Rightarrow> unit io" where
  "validateAndFlush_sent env buffer =
     await (get carryTail) (\<lambda>carry.
     let textToCheck = carry @ buffer in
     await (stream_write env auditStream (checking_line textToCheck)) (\<lambda>_.
     await (detectPII env textToCheck) (\<lambda>piiItems.
     await (if length piiItems > 0
            then await (stream_write env auditStream (found_pii_line piiItems))
                   (\<lambda>_. return (redactPII textToCheck piiItems))
            else await (stream_write env auditStream (''No PII found.'' @ newline))
                   (\<lambda>_. return textToCheck)) (\<lambda>sanitized.
     await (stream_write env mainStream sanitized) (\<lambda>_.
     modify (\<lambda>w. w\<lparr>carryTail := slice_last CARRY_TAIL_LENGTH_sent sanitized\<rparr>))))))"

definition on_event_sent :: "pii_type env \<Rightarrow> event \<Rightarrow> control io" where
  "on_event_sent env ev =
     await (case ev of
              text_delta text \<Rightarrow>
                await (modify (\<lambda>w. w\<lparr>pendingBuffer := pendingBuffer w @ text\<rparr>)) (\<lambda>_.
                await (get pendingBuffer) (\<lambda>buffer.
                let sentenceBoundary = SENTENCE_END_exec buffer;
                    shouldFlushBySize = (length buffer \<ge> CHAR_THRESHOLD);
                    shouldFlushBySentence =
                      (sentenceBoundary \<noteq> None \<and> length buffer \<ge> MIN_SENTENCE_CHARS)
                in if shouldFlushBySize \<or> shouldFlushBySentence
                   then await (validateAndFlush_sent env buffer)
                          (\<lambda>_. modify (\<lambda>w. w\<lparr>pendingBuffer := []\<rparr>))
                   else return ()))
            | _ \<Rightarrow> return ())
       (\<lambda>_. if ev = finish then return Break else return Continue)"

definition drain_sent :: "pii_type env \<Rightarrow> unit io" where
  "drain_sent env =
     await (get pendingBuffer) (\<lambda>buffer.
     if length buffer > 0
     then await (stream_write env auditStream (final_check_line buffer))
            (\<lambda>_. validateAndFlush_sent env buffer)
     else return ())"

definition GuardrailStreamer_sent :: "pii_type env \<Rightarrow> pull list \<Rightarrow> unit io" where
  "GuardrailStreamer_sent env fullStream =
     try_catch
       (await (stream_write env auditStream (''Starting PII guardrail...'' @ newline)) (\<lambda>_.
        await (modify (\<lambda>w. w\<lparr>pendingBuffer := [], carryTail := []\<rparr>)) (\<lambda>_.
        await (for_await (on_event_sent env) fullStream) (\<lambda>_.
        await (drain_sent env) (\<lambda>_.
        await (stream_write env auditStream (''Stream complete.'' @ newline)) (\<lambda>_.
        await (stream_close env mainStream) (\<lambda>_.
        stream_close env auditStream)))))))
       (on_error_pii env)"

section \<open>What a session is observed by\<close>

text \<open>The chunks that reached a stream, in order, and their concatenation.\<close>

fun chunks :: "channel \<Rightarrow> effect list \<Rightarrow> string list" where
  "chunks c [] = []"
| "chunks c (Wrote c' s # es) = (if c' = c then s # chunks c es else chunks c es)"
| "chunks c (_ # es) = chunks c es"

definition content :: "channel \<Rightarrow> world \<Rightarrow> string" where
  "content c w = concat (chunks c (trace w))"

text \<open>The streams on which a close was tried, whether it went through or not.\<close>

fun close_attempts :: "effect list \<Rightarrow> channel list" where
  "close_attempts [] = []"
| "close_attempts (Closed c # es) = c # close_attempts es"
| "close_attempts (CloseFailed c # es) = c # close_attempts es"
| "close_attempts (_ # es) = close_attempts es"

text \<open>The state before a session, and collaborators that never fail a stream.\<close>

definition fresh :: world where
  "fresh = \<lparr>trace = [], pendingBuffer = [], carryTail = []\<rparr>"

definition no_faults :: "'k env \<Rightarrow> bool" where
  "no_faults env \<longleftrightarrow> (\<forall>n op. \<not> fails env n op)"

text \<open>The deltas a loop reads: those before the first \<open>finish\<close> event.\<close>

fun raw_text :: "event list \<Rightarrow> string" where
  "raw_text [] = []"
| "raw_text (text_delta text # es) = text @ raw_text es"
| "raw_text (finish # es) = []"
| "raw_text (other_event # es) = raw_text es"

text \<open>
  The size-or-sentence policy in the words of its description: the buffer has reached the
  size threshold, or it has reached the sentence minimum and holds, anywhere, an
  end-of-sentence mark followed by white space.
\<close>

definition size_or_sentence :: "string \<Rightarrow> bool" where
  "size_or_sentence buffer \<longleftrightarrow>
     length buffer \<ge> 200 \<or>
     (length buffer \<ge> 80 \<and>
      (\<exists>i\<in>{0..<length buffer - 1}. buffer ! i \<in> {CHR ''.'', CHR ''!'', CHR ''?''} \<and> is_space (buffer ! Suc i)))"

text \<open>
  What a detector hands to its driver when the model is called at moment \<open>n\<close>: the empty
  list when the call rejects, and for the confidentiality detector also on a text of white
  space only, on which it does not call the model.
\<close>

definition detected_pii :: "pii_type env \<Rightarrow> nat \<Rightarrow> string \<Rightarrow> pii_type item list" where
  "detected_pii env n text = (case generateObject env n text of Some pii \<Rightarrow> pii | None \<Rightarrow> [])"

definition detected_conf :: "conf_type env \<Rightarrow> nat \<Rightarrow> string \<Rightarrow> conf_type item list" where
  "detected_conf env n text =
     (if list_all is_space text then []
      else case generateObject env n text of Some items \<Rightarrow> items | None \<Rightarrow> [])"

text \<open>An invariant of the state that a computation keeps, also when it rejects.\<close>

definition preserves :: "(world \<Rightarrow> bool) \<Rightarrow> 'a io \<Rightarrow> bool" where
  "preserves I m \<longleftrightarrow> (\<forall>w. I w \<longrightarrow> I (snd (m w)))"

text \<open>
  A value is apart from a marker when no occurrence of the value can touch a marker that
  was put into a text: the value holds neither the first nor the last character of the
  marker (its brackets) and does not occur inside the marker.
\<close>

definition apart :: "string \<Rightarrow> string \<Rightarrow> bool" where
  "apart u m \<longleftrightarrow> m \<noteq> [] \<and> hd m \<notin> set u \<and> last m \<notin> set u \<and> \<not> sublist u m"

text \<open>An invariant that does not look at the effects is kept by every effect.\<close>

definition trace_blind :: "(world \<Rightarrow> bool) \<Rightarrow> bool" where
  "trace_blind I \<longleftrightarrow> (\<forall>w t. I w \<longrightarrow> I (w\<lparr>trace := t\<rparr>))"

text \<open>
  The invariants of the proofs below: a bound on the carry tail, a fixed pending buffer, a
  number of effects that have happened.
\<close>

definition carry_within :: "nat \<Rightarrow> world \<Rightarrow> bool" where
  "carry_within n w \<longleftrightarrow> length (carryTail w) \<le> n"

definition pending_is :: "string \<Rightarrow> world \<Rightarrow> bool" where
  "pending_is b w \<longleftrightarrow> pendingBuffer w = b"

definition trace_at_least :: "nat \<Rightarrow> world \<Rightarrow> bool" where
  "trace_at_least n w \<longleftrightarrow> n \<le> length (trace w)"

text \<open>
  The audit stream never claims a finding when none of its chunks starts with \<open>Found\<close>. The
  detection model finds nothing when each of its calls rejects or answers with no item, and
  is down when each of its calls rejects.
\<close>

definition never_found :: "world \<Rightarrow> bool" where
  "never_found w \<longleftrightarrow> (\<forall>l\<in>set (chunks auditStream (trace w)). \<not> prefix ''Found'' l)"

definition finds_nothing :: "'k env \<Rightarrow> bool" where
  "finds_nothing env \<longleftrightarrow>
     (\<forall>n text. generateObject env n text = None \<or> generateObject env n text = Some [])"

definition detector_down :: "'k env \<Rightarrow> bool" where
  "detector_down env \<longleftrightarrow> (\<forall>n text. generateObject env n text = None)"

section \<open>Properties of the global replacement\<close>

lemma replace_scan_absent: "\<not> sublist v t \<Longrightarrow> replace_scan v m t = t"
  by (induction t) (auto simp: sublist_Cons_right)

lemma apart_nonempty: "apart u m \<Longrightarrow> u \<noteq> []"
  by (auto simp: apart_def)

lemma prefix_apart_append:
  assumes "apart u m"
  shows "prefix u (xs @ m @ y) \<longleftrightarrow> prefix u xs"
proof
  assume "prefix u (xs @ m @ y)"
  then consider "prefix u xs" | us where "u = xs @ us" "prefix us (m @ y)"
    by (auto simp: prefix_append)
  then show "prefix u xs"
  proof cases
    case 1 then show ?thesis .
  next
    case 2
    show ?thesis
    proof (cases us)
      case Nil with 2 show ?thesis by simp
    next
      case (Cons a as)
      from assms obtain b bs where m: "m = b # bs" by (cases m) (auto simp: apart_def)
      with 2 Cons have "a = b" by simp
      with 2 Cons m assms show ?thesis by (auto simp: apart_def)
    qed
  qed
next
  assume "prefix u xs" then show "prefix u (xs @ m @ y)" by (rule prefix_prefix)
qed

lemma no_prefix_in_marker:
  assumes "apart v m" "suffix (c # cs) m"
  shows "\<not> prefix v (c # cs @ y)"
proof
  assume "prefix v (c # cs @ y)"
  then consider "prefix v (c # cs)" | us where "v = (c # cs) @ us"
    using prefix_append[of v "c # cs" y] by auto
  then show False
  proof cases
    case 1
    then have "sublist v (c # cs)" by (rule prefix_imp_sublist)
    moreover have "sublist (c # cs) m" using assms(2) by (rule suffix_imp_sublist)
    ultimately have "sublist v m" by (rule sublist_order.order_trans)
    with assms(1) show False by (simp add: apart_def)
  next
    case 2
    from assms(2) obtain zs where "m = zs @ c # cs" by (auto simp: suffix_def)
    then have "last m = last (c # cs)" by simp
    moreover have "last (c # cs) \<in> set v" using 2 by (metis last_in_set list.distinct(1) set_append UnI1)
    ultimately show False using assms(1) by (simp add: apart_def)
  qed
qed

lemma replace_scan_marker_suffix:
  "apart v m' \<Longrightarrow> suffix s m' \<Longrightarrow> replace_scan v m (s @ y) = s @ replace_scan v m y"
proof (induction s)
  case Nil then show ?case by simp
next
  case (Cons c cs)
  then have "\<not> prefix v (c # cs @ y)" by (intro no_prefix_in_marker)
  moreover have "suffix cs m'" using Cons.prems(2) by (rule suffix_ConsD)
  ultimately show ?case using Cons by simp
qed

lemma replace_scan_marker:
  assumes "apart v m'"
  shows "replace_scan v m (m' @ y) = m' @ replace_scan v m y"
proof -
  have "suffix m' m'" by (simp add: suffix_def)
  with assms show ?thesis by (rule replace_scan_marker_suffix)
qed

lemma replace_scan_split:
  assumes "apart v m'"
  shows "replace_scan v m (x @ m' @ y) = replace_scan v m x @ m' @ replace_scan v m y"
  using assms
proof (induction v m x rule: replace_scan.induct)
  case (1 v m)
  then show ?case by (simp add: replace_scan_marker)
next
  case (2 v m c cs)
  show ?case
  proof (cases "prefix v (c # cs)")
    case True
    then have len: "length v - 1 \<le> length cs" by (auto dest: prefix_length_le)
    from True have "prefix v (c # cs @ m' @ y)"
      using prefix_prefix[of v "c # cs" "m' @ y"] by simp
    with True len 2 show ?thesis by simp
  next
    case False
    with 2(3) have "\<not> prefix v (c # cs @ m' @ y)"
      using prefix_apart_append[of v m' "c # cs" y] by simp
    with False 2 show ?thesis by simp
  qed
qed

lemma prefix_replace_scan:
  "m \<noteq> [] \<Longrightarrow> hd m \<notin> set u \<Longrightarrow> prefix u (replace_scan v m t) \<Longrightarrow> prefix u t"
proof (induction v m t arbitrary: u rule: replace_scan.induct)
  case (1 v m) then show ?case by simp
next
  case (2 v m c cs)
  show ?case
  proof (cases u)
    case Nil then show ?thesis by simp
  next
    case (Cons a as)
    show ?thesis
    proof (cases "prefix v (c # cs)")
      case True
      with 2(5) have "prefix u (m @ replace_scan v m (drop (length v - 1) cs))" by simp
      with Cons 2(3,4) show ?thesis by (cases m) auto
    next
      case False
      with 2(5) Cons have "a = c" "prefix as (replace_scan v m cs)" by auto
      moreover from 2(4) Cons have "hd m \<notin> set as" by auto
      ultimately show ?thesis using 2(2)[OF False 2(3)] Cons by simp
    qed
  qed
qed

lemma sublist_after_marker_suffix:
  "apart u m \<Longrightarrow> suffix s m \<Longrightarrow> sublist u (s @ r) \<Longrightarrow> sublist u r"
proof (induction s)
  case Nil then show ?case by simp
next
  case (Cons c cs)
  then have "\<not> prefix u (c # cs @ r)" by (intro no_prefix_in_marker)
  moreover have "suffix cs m" using Cons.prems(2) by (rule suffix_ConsD)
  ultimately show ?case using Cons by (auto simp: sublist_Cons_right)
qed

lemma sublist_after_marker:
  assumes "apart u m" "sublist u (m @ r)"
  shows "sublist u r"
proof -
  have "suffix m m" by (simp add: suffix_def)
  with assms(1) show ?thesis using assms(2) by (rule sublist_after_marker_suffix)
qed

lemma sublist_replace_scan:
  "u = [] \<or> apart u m \<Longrightarrow> sublist u (replace_scan v m t) \<Longrightarrow> sublist u t"
proof (induction v m t rule: replace_scan.induct)
  case (1 v m) then show ?case by simp
next
  case (2 v m c cs)
  show ?case
  proof (cases "u = []")
    case True then show ?thesis by simp
  next
    case nonempty: False
    with 2(3) have ap: "apart u m" by simp
    show ?thesis
    proof (cases "prefix v (c # cs)")
      case True
      with 2(4) have "sublist u (m @ replace_scan v m (drop (length v - 1) cs))" by simp
      then have "sublist u (replace_scan v m (drop (length v - 1) cs))"
        using sublist_after_marker ap by blast
      then have "sublist u (drop (length v - 1) cs)" using 2(1)[OF True 2(3)] by simp
      then have "sublist u cs" using sublist_drop sublist_order.order_trans by blast
      then show ?thesis by (simp add: sublist_Cons_right)
    next
      case False
      with 2(4) have "prefix u (c # replace_scan v m cs) \<or> sublist u (replace_scan v m cs)"
        by (simp add: sublist_Cons_right)
      then show ?thesis
      proof
        assume "prefix u (c # replace_scan v m cs)"
        then have "prefix u (replace_scan v m (c # cs))" using False by simp
        moreover have "m \<noteq> []" "hd m \<notin> set u" using ap by (simp_all add: apart_def)
        ultimately have "prefix u (c # cs)" using prefix_replace_scan by blast
        then show ?thesis by simp
      next
        assume "sublist u (replace_scan v m cs)"
        then have "sublist u cs" using 2(2)[OF False 2(3)] by simp
        then show ?thesis by (simp add: sublist_Cons_right)
      qed
    qed
  qed
qed

lemma replace_scan_removes:
  "apart v m \<Longrightarrow> \<not> sublist v (replace_scan v m t)"
proof (induction v m t rule: replace_scan.induct)
  case (1 v m) then show ?case by (auto dest: apart_nonempty)
next
  case (2 v m c cs)
  show ?case
  proof (cases "prefix v (c # cs)")
    case True
    have "\<not> sublist v (replace_scan v m (drop (length v - 1) cs))"
      using 2(1)[OF True 2(3)] .
    then have "\<not> sublist v (m @ replace_scan v m (drop (length v - 1) cs))"
      using sublist_after_marker 2(3) by blast
    with True show ?thesis by simp
  next
    case False
    have IH: "\<not> sublist v (replace_scan v m cs)" using 2(2)[OF False 2(3)] .
    have "m \<noteq> []" "hd m \<notin> set v" using 2(3) by (simp_all add: apart_def)
    then have "\<not> prefix v (replace_scan v m (c # cs))"
      using prefix_replace_scan[of m v v "c # cs"] False by blast
    with False IH show ?thesis by (simp add: sublist_Cons_right)
  qed
qed

lemma replace_scan_first:
  "\<not> sublist v (pre @ butlast v) \<Longrightarrow> replace_scan v m (pre @ v @ post) = pre @ m @ replace_scan v m post"
proof (induction pre)
  case Nil
  then have "v \<noteq> []" by auto
  then obtain c cs where "v = c # cs" by (cases v) auto
  then show ?case by simp
next
  case (Cons p ps)
  then have ne: "v \<noteq> []" by auto
  from Cons.prems have np: "\<not> prefix v (p # ps @ butlast v)" and ns: "\<not> sublist v (ps @ butlast v)"
    by (auto simp: sublist_Cons_right)
  have "\<not> prefix v (p # ps @ v @ post)"
  proof
    assume a: "prefix v (p # ps @ v @ post)"
    have "prefix (p # ps @ butlast v) (p # ps @ v @ post)"
      using ne by (metis Cons_prefix_Cons append_butlast_last_id append.assoc prefixI same_prefix_prefix)
    moreover have "length v \<le> length (p # ps @ butlast v)" using ne by simp
    ultimately have "prefix v (p # ps @ butlast v)" using a prefix_length_prefix by blast
    with np show False ..
  qed
  with Cons.IH[OF ns] show ?case by simp
qed

section \<open>Properties of the redactors\<close>

lemma foldl_skip:
  "foldl (\<lambda>t i. if P i then t else f t i) t xs = foldl f t (filter (\<lambda>i. \<not> P i) xs)"
  by (induction xs arbitrary: t) auto

lemma foldl_scan_removes:
  assumes "\<forall>i\<in>set (ds @ xs). \<forall>j\<in>set xs. apart (value_of i) (mk (type_of j))"
    and "\<forall>i\<in>set ds. \<not> sublist (value_of i) t"
  shows "\<forall>i\<in>set (ds @ xs).
           \<not> sublist (value_of i)
               (foldl (\<lambda>t i. replace_scan (value_of i) (mk (type_of i)) t) t xs)"
  using assms
proof (induction xs arbitrary: t ds)
  case Nil then show ?case by simp
next
  case (Cons x xs)
  let ?t = "replace_scan (value_of x) (mk (type_of x)) t"
  have x: "\<not> sublist (value_of x) ?t"
    using Cons.prems(1) by (intro replace_scan_removes) auto
  have ds: "\<not> sublist (value_of i) ?t" if "i \<in> set ds" for i
  proof
    assume "sublist (value_of i) ?t"
    moreover have "apart (value_of i) (mk (type_of x))" using Cons.prems(1) that by auto
    ultimately have "sublist (value_of i) t" using sublist_replace_scan by blast
    with Cons.prems(2) that show False by auto
  qed
  have "\<forall>i\<in>set ((ds @ [x]) @ xs).
           \<not> sublist (value_of i)
               (foldl (\<lambda>t i. replace_scan (value_of i) (mk (type_of i)) t) ?t xs)"
  proof (rule Cons.IH)
    show "\<forall>i\<in>set ((ds @ [x]) @ xs). \<forall>j\<in>set xs. apart (value_of i) (mk (type_of j))"
      using Cons.prems(1) by auto
    show "\<forall>i\<in>set (ds @ [x]). \<not> sublist (value_of i) ?t" using x ds by auto
  qed
  then show ?case by simp
qed

lemma foldl_scan_absent:
  "\<forall>i\<in>set xs. \<not> sublist (value_of i) t \<Longrightarrow>
   foldl (\<lambda>t i. replace_scan (value_of i) (mk (type_of i)) t) t xs = t"
  by (induction xs) (auto simp: replace_scan_absent)

lemma foldl_scan_idem:
  assumes "\<forall>i\<in>set xs. \<forall>j\<in>set xs. apart (value_of i) (mk (type_of j))"
  shows "foldl (\<lambda>t i. replace_scan (value_of i) (mk (type_of i)) t)
           (foldl (\<lambda>t i. replace_scan (value_of i) (mk (type_of i)) t) t xs) xs
         = foldl (\<lambda>t i. replace_scan (value_of i) (mk (type_of i)) t) t xs"
  using foldl_scan_removes[of "[]" xs mk t] assms by (intro foldl_scan_absent) simp

lemma redactPII_scan:
  "\<forall>i\<in>set S. value_of i \<noteq> [] \<Longrightarrow>
   redactPII T S = foldl (\<lambda>t i. replace_scan (value_of i) (pii_marker (type_of i)) t) T S"
proof -
  assume ne: "\<forall>i\<in>set S. value_of i \<noteq> []"
  have "foldl (\<lambda>t i. replaceAll t (value_of i) (pii_marker (type_of i))) T S
        = foldl (\<lambda>t i. replace_scan (value_of i) (pii_marker (type_of i)) t) T S"
    using ne by (intro foldl_cong) (auto simp: replaceAll_def)
  then show ?thesis by (cases S) (simp_all add: redactPII_def)
qed

lemma redactConfidential_scan:
  "redactConfidential T S =
     foldl (\<lambda>t i. replace_scan (value_of i) (REDACTION_MARKERS (type_of i)) t) T
       (filter (\<lambda>i. value_of i \<noteq> []) (sort_longest_first S))"
proof (cases S)
  case Nil then show ?thesis by (simp add: redactConfidential_def sort_longest_first_def)
next
  case (Cons a as)
  then show ?thesis
    unfolding redactConfidential_def replace_escaped_def
    by (simp only: foldl_skip list.simps if_False not_not)
qed

lemma redactConfidential_skips_empty:
  "redactConfidential T S = redactConfidential T (filter (\<lambda>i. value_of i \<noteq> []) S)"
  unfolding redactConfidential_scan sort_longest_first_def
  by (simp add: filter_sort)

lemma sort_longest_first_pair:
  "length (value_of b) < length (value_of a) \<Longrightarrow>
   sort_longest_first [b, a] = [a, b] \<and> sort_longest_first [a, b] = [a, b]"
  by (simp add: sort_longest_first_def)

lemma redactConfidential_pair:
  assumes "length (value_of b) < length (value_of a)"
  shows "redactConfidential T [b, a] = redactConfidential (redactConfidential T [a]) [b]"
    and "redactConfidential T [a, b] = redactConfidential (redactConfidential T [a]) [b]"
  using assms sort_longest_first_pair[OF assms]
  by (auto simp: redactConfidential_scan sort_longest_first_def)

text \<open>
  The confidentiality redactor skips the spans with an empty value: its result is the one
  for the list without them.
\<close>

lemma redactConfidential_without_empty:
  "redactConfidential T (S @ Item k [] # S') = redactConfidential T (S @ S')"
  by (subst redactConfidential_skips_empty, subst (2) redactConfidential_skips_empty) simp

text \<open>
  Claim C3, as amended. Redacting twice with the same spans gives the text redacted once
  when every value is apart from every marker of the span list: it holds no square
  bracket and does not occur inside a marker. \<open>redactPII\<close> needs this of every value, and
  so every value non-empty; \<open>redactConfidential\<close> needs it of the non-empty values.
\<close>

theorem redact_idempotent_apart:
  assumes "\<forall>i\<in>set P. \<forall>j\<in>set P. apart (value_of i) (pii_marker (type_of j))"
    and "\<forall>i\<in>set C. \<forall>j\<in>set C. value_of i \<noteq> [] \<longrightarrow> apart (value_of i) (REDACTION_MARKERS (type_of j))"
  shows "redactPII (redactPII T P) P = redactPII T P \<and>
         redactConfidential (redactConfidential U C) C = redactConfidential U C"
proof
  have ne: "\<forall>i\<in>set P. value_of i \<noteq> []" using assms(1) by (auto dest: apart_nonempty)
  show "redactPII (redactPII T P) P = redactPII T P"
    unfolding redactPII_scan[OF ne]
    using assms(1) by (intro foldl_scan_idem)
next
  let ?C = "filter (\<lambda>i. value_of i \<noteq> []) (sort_longest_first C)"
  have "\<forall>i\<in>set ?C. \<forall>j\<in>set ?C. apart (value_of i) (REDACTION_MARKERS (type_of j))"
    using assms(2) by (auto simp: sort_longest_first_def)
  then show "redactConfidential (redactConfidential U C) C = redactConfidential U C"
    unfolding redactConfidential_scan by (intro foldl_scan_idem)
qed

text \<open>
  A witness for C3: an email address and a phone number for \<open>redactPII\<close>, a product name, an
  amount and an empty value for \<open>redactConfidential\<close>.
\<close>

theorem redact_idempotent_witness:
  "redactPII (redactPII ''My email is john@x.com and my phone is 555-123-4567.''
       [Item email ''john@x.com'', Item phone ''555-123-4567''])
       [Item email ''john@x.com'', Item phone ''555-123-4567'']
     = redactPII ''My email is john@x.com and my phone is 555-123-4567.''
         [Item email ''john@x.com'', Item phone ''555-123-4567''] \<and>
   redactConfidential (redactConfidential ''Q3 revenue was $127M; Project Zephyr ships in October.''
       [Item product ''Project Zephyr'', Item financial ''$127M'', Item rnd []])
       [Item product ''Project Zephyr'', Item financial ''$127M'', Item rnd []]
     = redactConfidential ''Q3 revenue was $127M; Project Zephyr ships in October.''
         [Item product ''Project Zephyr'', Item financial ''$127M'', Item rnd []]"
proof -
  have p: "\<forall>i\<in>set [Item email ''john@x.com'', Item phone ''555-123-4567''].
             \<forall>j\<in>set [Item email ''john@x.com'', Item phone ''555-123-4567''].
                apart (value_of i) (pii_marker (type_of j))"
    by (simp add: apart_def pii_marker_def toUpperCase_def sublist_Cons_right)
  have c: "\<forall>i\<in>set [Item product ''Project Zephyr'', Item financial ''$127M'', Item rnd []].
             \<forall>j\<in>set [Item product ''Project Zephyr'', Item financial ''$127M'', Item rnd []].
                value_of i \<noteq> [] \<longrightarrow> apart (value_of i) (REDACTION_MARKERS (type_of j))"
    by (simp add: apart_def sublist_Cons_right)
  show ?thesis by (rule redact_idempotent_apart[OF p c])
qed

text \<open>
  C3 as stated fails: a value that occurs inside its own marker is found again in the
  marker, by either redactor.
\<close>

theorem redact_idempotent_counterexample:
  "redactPII (redactPII ''E'' [Item email ''E'']) [Item email ''E'']
     \<noteq> redactPII ''E'' [Item email ''E''] \<and>
   redactConfidential (redactConfidential ''R'' [Item rnd ''R'']) [Item rnd ''R'']
     \<noteq> redactConfidential ''R'' [Item rnd ''R'']"
  by (simp add: redactPII_def replaceAll_def pii_marker_def toUpperCase_def
      redactConfidential_def replace_escaped_def sort_longest_first_def)

text \<open>
  The sibling \<open>redactConfidential\<close> does replace the longer value first, in whatever order
  the detector gave the two spans: where the value of \<open>b\<close> is a strict substring of the
  value of \<open>a\<close> and, unless empty, apart from the marker of \<open>a\<close>, the first occurrence of
  the value of \<open>a\<close> in the text carries the marker of \<open>a\<close>, whole, and the text before and
  behind it is redacted on its own.
\<close>

lemma redactConfidential_longest_first:
  assumes "strict_sublist (value_of b) (value_of a)"
    and "\<not> sublist (value_of a) (pre @ butlast (value_of a))"
    and "value_of b = [] \<or> apart (value_of b) (REDACTION_MARKERS (type_of a))"
  shows "redactConfidential (pre @ value_of a @ post) [b, a] =
           redactConfidential pre [b] @ REDACTION_MARKERS (type_of a) @ redactConfidential post [b, a] \<and>
         redactConfidential (pre @ value_of a @ post) [a, b] =
           redactConfidential (pre @ value_of a @ post) [b, a]"
proof -
  let ?A = "value_of a" and ?B = "value_of b" and ?mA = "REDACTION_MARKERS (type_of a)"
  have "length ?B \<le> length ?A" "?B \<noteq> ?A"
    using assms(1) by (auto simp: strict_sublist_def dest: sublist_length_le)
  moreover have "length ?B = length ?A \<Longrightarrow> ?B = ?A"
    using assms(1) by (auto simp: strict_sublist_def sublist_def)
  ultimately have len: "length ?B < length ?A" by (cases "length ?B = length ?A") auto
  then have neA: "?A \<noteq> []" by auto
  have a1: "redactConfidential (pre @ ?A @ post) [a] = pre @ ?mA @ redactConfidential post [a]"
    using neA replace_scan_first[OF assms(2)]
    by (simp add: redactConfidential_scan sort_longest_first_def)
  have b1: "redactConfidential (x @ ?mA @ y) [b] = redactConfidential x [b] @ ?mA @ redactConfidential y [b]"
    for x y
    using assms(3) replace_scan_split[of ?B ?mA]
    by (auto simp add: redactConfidential_scan sort_longest_first_def)
  show ?thesis
    by (simp add: redactConfidential_pair[OF len] a1 b1)
qed

text \<open>An instance: the shorter span comes first in the detector's list.\<close>

lemma redactConfidential_longest_first_example:
  "redactConfidential (''call '' @ value_of (Item contact ''555-1234 ext 2'') @ '' or 555-1234'')
      [Item product ''555-1234'', Item contact ''555-1234 ext 2'']
   = ''call [REDACTED:CONTACT] or [REDACTED:PRODUCT]''"
proof -
  let ?a = "Item contact ''555-1234 ext 2''" and ?b = "Item product ''555-1234''"
  have 1: "strict_sublist (value_of ?b) (value_of ?a)"
    by (simp add: strict_sublist_def)
  have 2: "\<not> sublist (value_of ?a) (''call '' @ butlast (value_of ?a))"
    by (simp add: sublist_Cons_right)
  have 3: "value_of ?b = [] \<or> apart (value_of ?b) (REDACTION_MARKERS (type_of ?a))"
    by (simp add: apart_def sublist_Cons_right)
  have "redactConfidential ''call '' [?b] = ''call ''"
    and "redactConfidential '' or 555-1234'' [?b, ?a] = '' or [REDACTED:PRODUCT]''"
    by (simp_all add: redactConfidential_def replace_escaped_def sort_longest_first_def)
  with redactConfidential_longest_first[OF 1 2 3, of "'' or 555-1234''"]
  show ?thesis by simp
qed

text \<open>
  Claim C4 on \<open>redactPII\<close>: the spans are not sorted. \<open>redactPII\<close> replaces in the
  detector's order, so a shorter span given first takes its part of the longer value: the
  rest of the longer value stays in the output, and the longer span's marker is nowhere in
  it.
\<close>

theorem redactPII_detector_order:
  "redactPII ''555-1234 ext 2'' [Item phone ''555-1234'', Item ssn ''555-1234 ext 2'']
     = ''[REDACTED:PHONE] ext 2'' \<and>
   \<not> sublist (pii_marker ssn)
       (redactPII ''555-1234 ext 2'' [Item phone ''555-1234'', Item ssn ''555-1234 ext 2'']) \<and>
   redactPII ''555-1234 ext 2'' [Item ssn ''555-1234 ext 2'', Item phone ''555-1234'']
     = ''[REDACTED:SSN]''"
  by (simp add: redactPII_def replaceAll_def pii_marker_def toUpperCase_def sublist_Cons_right)

text \<open>
  The limit of the sibling: \<open>redactConfidential\<close> replaces literally in a text that already
  holds markers, so a shorter value that occurs inside a marker is replaced inside the
  longer span's marker.
\<close>

lemma redactConfidential_marker_collision:
  "redactConfidential ''RED alert'' [Item product ''RED'', Item strategy ''RED alert'']
     = ''[[REDACTED:PRODUCT]ACTED:STRATEGY]'' \<and>
   \<not> sublist (REDACTION_MARKERS strategy)
       (redactConfidential ''RED alert'' [Item product ''RED'', Item strategy ''RED alert''])"
  by (simp add: redactConfidential_def replace_escaped_def sort_longest_first_def sublist_Cons_right)

text \<open>
  Claim C5 on \<open>redactPII\<close>: a span with the empty value is not skipped. \<open>replaceAll\<close> matches
  the empty string before every character and at the end, and the marker is put at each of
  these places.
\<close>

theorem redactPII_empty_value_wildcard:
  "redactPII ''ab'' [Item email []] = ''[REDACTED:EMAIL]a[REDACTED:EMAIL]b[REDACTED:EMAIL]''"
  by (simp add: redactPII_def replaceAll_def pii_marker_def toUpperCase_def)

section \<open>Flushes on streams that do not fail\<close>

lemmas io_defs = return_def throw_def await_def try_catch_def get_def modify_def log_def

lemma chunks_append [simp]: "chunks c (xs @ ys) = chunks c xs @ chunks c ys"
  by (induction c xs rule: chunks.induct) simp_all

lemma close_attempts_append [simp]: "close_attempts (xs @ ys) = close_attempts xs @ close_attempts ys"
  by (induction xs rule: close_attempts.induct) simp_all

lemma stream_write_ok:
  "no_faults env \<Longrightarrow> stream_write env c s w = (Inr (), w\<lparr>trace := trace w @ [Wrote c s]\<rparr>)"
  by (simp add: stream_write_def no_faults_def)

lemma stream_close_ok:
  "no_faults env \<Longrightarrow> stream_close env c w = (Inr (), w\<lparr>trace := trace w @ [Closed c]\<rparr>)"
  by (simp add: stream_close_def no_faults_def)

lemma redactConfidential_Nil [simp]: "redactConfidential t [] = t"
  by (simp add: redactConfidential_def)

lemma redactPII_Nil [simp]: "redactPII t [] = t"
  by (simp add: redactPII_def)

lemma validateAndFlush_conf_ok:
  fixes env :: "conf_type env" and buffer :: string and w :: world
  assumes "no_faults env"
  defines "text \<equiv> carryTail w @ buffer"
  defines "confItems \<equiv> detected_conf env (Suc (length (trace w))) text"
  defines "sanitized \<equiv> redactConfidential text confItems"
  defines "toEmit \<equiv> slice_from (length (carryTail w)) sanitized"
  defines "w' \<equiv> snd (validateAndFlush_conf env buffer w)"
  shows "fst (validateAndFlush_conf env buffer w) = Inr ()"
    and "carryTail w' = slice_last CARRY_TAIL_LENGTH sanitized"
    and "pendingBuffer w' = pendingBuffer w"
    and "chunks mainStream (trace w') =
           chunks mainStream (trace w) @ (if toEmit = [] then [] else [toEmit])"
    and "chunks auditStream (trace w') =
           chunks auditStream (trace w) @
           [checking_line text,
            if confItems = [] then ''No confidential info found.'' @ newline else found_conf_line confItems] @
           (if toEmit = [] then [] else [emitted_line toEmit])"
  unfolding assms(2-)
  by (simp_all add: validateAndFlush_conf_def io_defs stream_write_ok[OF assms(1)] detectConfidential_def
      detected_conf_def Let_def split: option.splits)

lemma validateAndFlush_pii_ok:
  fixes env :: "pii_type env" and buffer :: string and w :: world
  assumes "no_faults env"
  defines "text \<equiv> carryTail w @ buffer"
  defines "piiItems \<equiv> detected_pii env (Suc (length (trace w))) text"
  defines "sanitized \<equiv> redactPII text piiItems"
  defines "toEmit \<equiv> slice_from (length (carryTail w)) sanitized"
  defines "w' \<equiv> snd (validateAndFlush_pii env buffer w)"
  shows "fst (validateAndFlush_pii env buffer w) = Inr ()"
    and "carryTail w' = slice_last CARRY_TAIL_LENGTH sanitized"
    and "pendingBuffer w' = pendingBuffer w"
    and "chunks mainStream (trace w') =
           chunks mainStream (trace w) @ (if toEmit = [] then [] else [toEmit])"
    and "chunks auditStream (trace w') =
           chunks auditStream (trace w) @
           [checking_line text,
            if piiItems = [] then ''No PII found.'' @ newline else found_pii_line piiItems] @
           (if toEmit = [] then [] else [emitted_line toEmit])"
  unfolding assms(2-)
  by (simp_all add: validateAndFlush_pii_def io_defs stream_write_ok[OF assms(1)] detectPII_def
      detected_pii_def Let_def split: option.splits)

lemma validateAndFlush_sent_ok:
  fixes env :: "pii_type env" and buffer :: string and w :: world
  assumes "no_faults env"
  defines "text \<equiv> carryTail w @ buffer"
  defines "piiItems \<equiv> detected_pii env (Suc (length (trace w))) text"
  defines "sanitized \<equiv> redactPII text piiItems"
  defines "w' \<equiv> snd (validateAndFlush_sent env buffer w)"
  shows "fst (validateAndFlush_sent env buffer w) = Inr ()"
    and "carryTail w' = slice_last CARRY_TAIL_LENGTH_sent sanitized"
    and "pendingBuffer w' = pendingBuffer w"
    and "chunks mainStream (trace w') = chunks mainStream (trace w) @ [sanitized]"
    and "chunks auditStream (trace w') =
           chunks auditStream (trace w) @
           [checking_line text,
            if piiItems = [] then ''No PII found.'' @ newline else found_pii_line piiItems]"
  unfolding assms(2-)
  by (simp_all add: validateAndFlush_sent_def io_defs stream_write_ok[OF assms(1)] detectPII_def
      detected_pii_def Let_def split: option.splits)

text \<open>
  Claim C10. In the two drivers that emit increments, a flush whose sanitized text is no
  longer than the carry tail writes nothing to the main stream and no \<open>Emitted\<close> line: its
  only chunks are the \<open>Checking\<close> line and the found or not-found line on the audit
  stream. The streams are taken not to fail.
\<close>

theorem empty_increment_writes_nothing:
  fixes env :: "conf_type env" and penv :: "pii_type env"
  assumes "no_faults env" and "no_faults penv"
    and "length (redactConfidential (carryTail w @ buffer)
                  (detected_conf env (Suc (length (trace w))) (carryTail w @ buffer)))
           \<le> length (carryTail w)"
    and "length (redactPII (carryTail pw @ pbuffer)
                  (detected_pii penv (Suc (length (trace pw))) (carryTail pw @ pbuffer)))
           \<le> length (carryTail pw)"
  shows "chunks mainStream (trace (snd (validateAndFlush_conf env buffer w))) = chunks mainStream (trace w) \<and>
         chunks auditStream (trace (snd (validateAndFlush_conf env buffer w))) =
           chunks auditStream (trace w) @
           [checking_line (carryTail w @ buffer),
            if detected_conf env (Suc (length (trace w))) (carryTail w @ buffer) = []
            then ''No confidential info found.'' @ newline
            else found_conf_line (detected_conf env (Suc (length (trace w))) (carryTail w @ buffer))] \<and>
         chunks mainStream (trace (snd (validateAndFlush_pii penv pbuffer pw))) = chunks mainStream (trace pw) \<and>
         chunks auditStream (trace (snd (validateAndFlush_pii penv pbuffer pw))) =
           chunks auditStream (trace pw) @
           [checking_line (carryTail pw @ pbuffer),
            if detected_pii penv (Suc (length (trace pw))) (carryTail pw @ pbuffer) = []
            then ''No PII found.'' @ newline
            else found_pii_line (detected_pii penv (Suc (length (trace pw))) (carryTail pw @ pbuffer))]"
  using assms(3,4)
  by (simp add: validateAndFlush_conf_ok[OF assms(1)] validateAndFlush_pii_ok[OF assms(2)] slice_from_def)

text \<open>
  A witness for C10: the carry tail is twenty \<open>x\<close>, the detector reports them as one span,
  and the marker with the new \<open>y\<close> behind it is shorter than the carry tail.
\<close>

theorem empty_increment_witness:
  "chunks mainStream (trace (snd (validateAndFlush_conf
      \<lparr>generateObject = (\<lambda>n t. Some [Item contact ''xxxxxxxxxxxxxxxxxxxx'']), fails = (\<lambda>n op. False)\<rparr> ''y''
      \<lparr>trace = [], pendingBuffer = ''y'', carryTail = ''xxxxxxxxxxxxxxxxxxxx''\<rparr>))) = [] \<and>
   chunks auditStream (trace (snd (validateAndFlush_conf
      \<lparr>generateObject = (\<lambda>n t. Some [Item contact ''xxxxxxxxxxxxxxxxxxxx'']), fails = (\<lambda>n op. False)\<rparr> ''y''
      \<lparr>trace = [], pendingBuffer = ''y'', carryTail = ''xxxxxxxxxxxxxxxxxxxx''\<rparr>)))
     = [''Checking 21 chars...'' @ newline, ''Found 1 confidential item(s): contact'' @ newline] \<and>
   chunks mainStream (trace (snd (validateAndFlush_pii
      \<lparr>generateObject = (\<lambda>n t. Some [Item ssn ''xxxxxxxxxxxxxxxxxxxx'']), fails = (\<lambda>n op. False)\<rparr> ''y''
      \<lparr>trace = [], pendingBuffer = ''y'', carryTail = ''xxxxxxxxxxxxxxxxxxxx''\<rparr>))) = [] \<and>
   chunks auditStream (trace (snd (validateAndFlush_pii
      \<lparr>generateObject = (\<lambda>n t. Some [Item ssn ''xxxxxxxxxxxxxxxxxxxx'']), fails = (\<lambda>n op. False)\<rparr> ''y''
      \<lparr>trace = [], pendingBuffer = ''y'', carryTail = ''xxxxxxxxxxxxxxxxxxxx''\<rparr>)))
     = [''Checking 21 chars...'' @ newline, ''Found 1 PII item(s): ssn'' @ newline]"
proof -
  let ?env = "\<lparr>generateObject = (\<lambda>n t. Some [Item contact ''xxxxxxxxxxxxxxxxxxxx'']), fails = (\<lambda>n op. False)\<rparr>"
  let ?penv = "\<lparr>generateObject = (\<lambda>n t. Some [Item ssn ''xxxxxxxxxxxxxxxxxxxx'']), fails = (\<lambda>n op. False)\<rparr>"
  let ?w = "\<lparr>trace = [], pendingBuffer = ''y'', carryTail = ''xxxxxxxxxxxxxxxxxxxx''\<rparr>"
  have 1: "no_faults ?env" and 2: "no_faults ?penv" by (simp_all add: no_faults_def)
  have 3: "length (redactConfidential (carryTail ?w @ ''y'')
                  (detected_conf ?env (Suc (length (trace ?w))) (carryTail ?w @ ''y'')))
           \<le> length (carryTail ?w)"
    by (simp add: detected_conf_def is_space_def redactConfidential_def replace_escaped_def sort_longest_first_def)
  have 4: "length (redactPII (carryTail ?w @ ''y'')
                  (detected_pii ?penv (Suc (length (trace ?w))) (carryTail ?w @ ''y'')))
           \<le> length (carryTail ?w)"
    by (simp add: detected_pii_def redactPII_def replaceAll_def pii_marker_def toUpperCase_def)
  have 5: "decimal (length ''xxxxxxxxxxxxxxxxxxxxy'') = ''21''" "decimal (length ''y'') = ''1''"
    by code_simp+
  show ?thesis
    using empty_increment_writes_nothing[OF 1 2 3 4]
    by (simp add: detected_conf_def detected_pii_def is_space_def checking_line_def found_conf_line_def found_pii_line_def 5[simplified])
qed

section \<open>Invariants of the state\<close>

lemma preserves_return: "preserves I (return x)"
  by (simp add: preserves_def return_def)

lemma preserves_throw: "preserves I (throw e)"
  by (simp add: preserves_def throw_def)

lemma preserves_get: "preserves I (get f)"
  by (simp add: preserves_def get_def)

lemma preserves_modify: "(\<And>w. I w \<Longrightarrow> I (f w)) \<Longrightarrow> preserves I (modify f)"
  by (simp add: preserves_def modify_def)

lemma preserves_await:
  "preserves I m \<Longrightarrow> (\<And>x. preserves I (f x)) \<Longrightarrow> preserves I (await m f)"
  by (auto simp: preserves_def await_def split: prod.splits sum.splits)

lemma preserves_try_catch:
  "preserves I m \<Longrightarrow> (\<And>e. preserves I (h e)) \<Longrightarrow> preserves I (try_catch m h)"
  by (auto simp: preserves_def try_catch_def split: prod.splits sum.splits)

lemma preserves_if:
  "preserves I a \<Longrightarrow> preserves I b \<Longrightarrow> preserves I (if c then a else b)"
  by simp

lemma preserves_log: "trace_blind I \<Longrightarrow> preserves I (log e)"
  by (simp add: preserves_def log_def modify_def trace_blind_def)

lemma preserves_stream_write: "trace_blind I \<Longrightarrow> preserves I (stream_write env c s)"
  by (simp add: preserves_def stream_write_def trace_blind_def)

lemma preserves_stream_close: "trace_blind I \<Longrightarrow> preserves I (stream_close env c)"
  by (simp add: preserves_def stream_close_def trace_blind_def)

lemma preserves_detectPII: "trace_blind I \<Longrightarrow> preserves I (detectPII env text)"
  by (simp add: preserves_def detectPII_def trace_blind_def split: option.splits)

lemma preserves_detectConfidential: "trace_blind I \<Longrightarrow> preserves I (detectConfidential env text)"
  by (simp add: preserves_def detectConfidential_def return_def trace_blind_def split: option.splits)

lemma preserves_for_await:
  "(\<And>e. preserves I (body e)) \<Longrightarrow> preserves I (for_await body fullStream)"
proof (induction body fullStream rule: for_await.induct)
  case (1 body) then show ?case by (simp add: preserves_return)
next
  case (2 body rest) then show ?case by (simp add: preserves_throw)
next
  case (3 body e rest)
  show ?case
    unfolding for_await.simps
  proof (rule preserves_await)
    show "preserves I (body e)" by (rule 3(2))
    show "preserves I (case ctl of Continue \<Rightarrow> for_await body rest | Break \<Rightarrow> return ())" for ctl
      using 3 by (cases ctl) (simp_all add: preserves_return)
  qed
qed

lemmas preserves_intros =
  preserves_await preserves_try_catch preserves_if preserves_return preserves_throw preserves_get
  preserves_log preserves_stream_write preserves_stream_close preserves_detectPII
  preserves_detectConfidential preserves_for_await

lemma length_slice_last: "0 < n \<Longrightarrow> length (slice_last n s) \<le> n"
  by (simp add: slice_last_def)

lemma validateAndFlush_conf_preserves:
  assumes "trace_blind I" and "\<And>w s. I w \<Longrightarrow> I (w\<lparr>carryTail := slice_last CARRY_TAIL_LENGTH s\<rparr>)"
  shows "preserves I (validateAndFlush_conf env buffer)"
  unfolding validateAndFlush_conf_def Let_def
  by (intro preserves_intros preserves_modify assms)

lemma validateAndFlush_pii_preserves:
  assumes "trace_blind I" and "\<And>w s. I w \<Longrightarrow> I (w\<lparr>carryTail := slice_last CARRY_TAIL_LENGTH s\<rparr>)"
  shows "preserves I (validateAndFlush_pii env buffer)"
  unfolding validateAndFlush_pii_def Let_def
  by (intro preserves_intros preserves_modify assms)

lemma validateAndFlush_sent_preserves:
  assumes "trace_blind I" and "\<And>w s. I w \<Longrightarrow> I (w\<lparr>carryTail := slice_last CARRY_TAIL_LENGTH_sent s\<rparr>)"
  shows "preserves I (validateAndFlush_sent env buffer)"
  unfolding validateAndFlush_sent_def Let_def
  by (intro preserves_intros preserves_modify assms)

lemma on_event_conf_preserves:
  assumes "trace_blind I" and "\<And>w s. I w \<Longrightarrow> I (w\<lparr>carryTail := slice_last CARRY_TAIL_LENGTH s\<rparr>)"
    and "\<And>w s. I w \<Longrightarrow> I (w\<lparr>pendingBuffer := s\<rparr>)"
  shows "preserves I (on_event_conf env ev)"
  unfolding on_event_conf_def
  by (cases ev; simp) (intro preserves_intros preserves_modify validateAndFlush_conf_preserves assms; assumption)+

lemma on_event_pii_preserves:
  assumes "trace_blind I" and "\<And>w s. I w \<Longrightarrow> I (w\<lparr>carryTail := slice_last CARRY_TAIL_LENGTH s\<rparr>)"
    and "\<And>w s. I w \<Longrightarrow> I (w\<lparr>pendingBuffer := s\<rparr>)"
  shows "preserves I (on_event_pii env ev)"
  unfolding on_event_pii_def
  by (cases ev; simp) (intro preserves_intros preserves_modify validateAndFlush_pii_preserves assms; assumption)+

lemma on_event_sent_preserves:
  assumes "trace_blind I" and "\<And>w s. I w \<Longrightarrow> I (w\<lparr>carryTail := slice_last CARRY_TAIL_LENGTH_sent s\<rparr>)"
    and "\<And>w s. I w \<Longrightarrow> I (w\<lparr>pendingBuffer := s\<rparr>)"
  shows "preserves I (on_event_sent env ev)"
  unfolding on_event_sent_def Let_def
  by (cases ev; simp) (intro preserves_intros preserves_modify validateAndFlush_sent_preserves assms; assumption)+

lemma drain_conf_preserves:
  assumes "trace_blind I" and "\<And>w s. I w \<Longrightarrow> I (w\<lparr>carryTail := slice_last CARRY_TAIL_LENGTH s\<rparr>)"
  shows "preserves I (drain_conf env)"
  unfolding drain_conf_def
  by (intro preserves_intros validateAndFlush_conf_preserves assms)

lemma drain_pii_preserves:
  assumes "trace_blind I" and "\<And>w s. I w \<Longrightarrow> I (w\<lparr>carryTail := slice_last CARRY_TAIL_LENGTH s\<rparr>)"
  shows "preserves I (drain_pii env)"
  unfolding drain_pii_def
  by (intro preserves_intros validateAndFlush_pii_preserves assms)

lemma drain_sent_preserves:
  assumes "trace_blind I" and "\<And>w s. I w \<Longrightarrow> I (w\<lparr>carryTail := slice_last CARRY_TAIL_LENGTH_sent s\<rparr>)"
  shows "preserves I (drain_sent env)"
  unfolding drain_sent_def
  by (intro preserves_intros validateAndFlush_sent_preserves assms)

lemma on_error_conf_preserves: "trace_blind I \<Longrightarrow> preserves I (on_error_conf env e)"
  unfolding on_error_conf_def by (intro preserves_intros)

lemma on_error_pii_preserves: "trace_blind I \<Longrightarrow> preserves I (on_error_pii env e)"
  unfolding on_error_pii_def by (intro preserves_intros)

lemma carry_within_blind: "trace_blind (carry_within n)"
  by (simp add: trace_blind_def carry_within_def)

lemma carry_within_slice: "0 < n \<Longrightarrow> carry_within n (w\<lparr>carryTail := slice_last n s\<rparr>)"
  by (simp add: carry_within_def length_slice_last)

lemma carry_within_pending: "carry_within n w \<Longrightarrow> carry_within n (w\<lparr>pendingBuffer := s\<rparr>)"
  by (simp add: carry_within_def)

lemma carry_within_init: "carry_within n (w\<lparr>pendingBuffer := [], carryTail := []\<rparr>)"
  by (simp add: carry_within_def)

lemma GuardrailStreamer_conf_carry:
  "preserves (carry_within CARRY_TAIL_LENGTH) (GuardrailStreamer_conf env fullStream)"
  unfolding GuardrailStreamer_conf_def
  by (intro preserves_intros preserves_modify on_event_conf_preserves drain_conf_preserves
        on_error_conf_preserves carry_within_blind carry_within_slice carry_within_pending
        carry_within_init)
     (simp_all add: CARRY_TAIL_LENGTH_def)

lemma GuardrailStreamer_pii_carry:
  "preserves (carry_within CARRY_TAIL_LENGTH) (GuardrailStreamer_pii env fullStream)"
  unfolding GuardrailStreamer_pii_def
  by (intro preserves_intros preserves_modify on_event_pii_preserves drain_pii_preserves
        on_error_pii_preserves carry_within_blind carry_within_slice carry_within_pending
        carry_within_init)
     (simp_all add: CARRY_TAIL_LENGTH_def)

lemma GuardrailStreamer_sent_carry:
  "preserves (carry_within CARRY_TAIL_LENGTH_sent) (GuardrailStreamer_sent env fullStream)"
  unfolding GuardrailStreamer_sent_def
  by (intro preserves_intros preserves_modify on_event_sent_preserves drain_sent_preserves
        on_error_pii_preserves carry_within_blind carry_within_slice carry_within_pending
        carry_within_init)
     (simp_all add: CARRY_TAIL_LENGTH_sent_def)

lemma preservesD: "preserves I m \<Longrightarrow> I w \<Longrightarrow> I (snd (m w))"
  by (simp add: preserves_def)

text \<open>
  Claim C8. In each driver the carry tail stays within the driver's window (64, 64 and
  32): a flush, the loop over any stream of events and the whole background task keep the
  bound, whatever the detector answers and whichever stream operation fails. The task sets
  the carry tail to the empty string before its loop.
\<close>

theorem carryTail_within_window:
  assumes "length (carryTail w) \<le> CARRY_TAIL_LENGTH"
    and "length (carryTail v) \<le> CARRY_TAIL_LENGTH_sent"
  shows "length (carryTail (snd (validateAndFlush_conf env buffer w))) \<le> CARRY_TAIL_LENGTH \<and>
         length (carryTail (snd (for_await (on_event_conf env) fullStream w))) \<le> CARRY_TAIL_LENGTH \<and>
         length (carryTail (snd (GuardrailStreamer_conf env fullStream w))) \<le> CARRY_TAIL_LENGTH \<and>
         length (carryTail (snd (validateAndFlush_pii penv buffer w))) \<le> CARRY_TAIL_LENGTH \<and>
         length (carryTail (snd (for_await (on_event_pii penv) fullStream w))) \<le> CARRY_TAIL_LENGTH \<and>
         length (carryTail (snd (GuardrailStreamer_pii penv fullStream w))) \<le> CARRY_TAIL_LENGTH \<and>
         length (carryTail (snd (validateAndFlush_sent penv buffer v))) \<le> CARRY_TAIL_LENGTH_sent \<and>
         length (carryTail (snd (for_await (on_event_sent penv) fullStream v))) \<le> CARRY_TAIL_LENGTH_sent \<and>
         length (carryTail (snd (GuardrailStreamer_sent penv fullStream v))) \<le> CARRY_TAIL_LENGTH_sent"
proof -
  have w: "carry_within CARRY_TAIL_LENGTH w" and v: "carry_within CARRY_TAIL_LENGTH_sent v"
    using assms by (simp_all add: carry_within_def)
  have pos: "0 < CARRY_TAIL_LENGTH" "0 < CARRY_TAIL_LENGTH_sent"
    by (simp_all add: CARRY_TAIL_LENGTH_def CARRY_TAIL_LENGTH_sent_def)
  note rules = carry_within_blind carry_within_slice carry_within_pending pos
  have "carry_within CARRY_TAIL_LENGTH (snd (validateAndFlush_conf env buffer w))"
    by (rule preservesD[where I = "carry_within CARRY_TAIL_LENGTH", OF _ w]) (intro validateAndFlush_conf_preserves rules)
  moreover have "carry_within CARRY_TAIL_LENGTH (snd (for_await (on_event_conf env) fullStream w))"
    by (rule preservesD[where I = "carry_within CARRY_TAIL_LENGTH", OF _ w]) (intro preserves_for_await on_event_conf_preserves rules)
  moreover have "carry_within CARRY_TAIL_LENGTH (snd (GuardrailStreamer_conf env fullStream w))"
    by (rule preservesD[where I = "carry_within CARRY_TAIL_LENGTH", OF _ w]) (intro GuardrailStreamer_conf_carry)
  moreover have "carry_within CARRY_TAIL_LENGTH (snd (validateAndFlush_pii penv buffer w))"
    by (rule preservesD[where I = "carry_within CARRY_TAIL_LENGTH", OF _ w]) (intro validateAndFlush_pii_preserves rules)
  moreover have "carry_within CARRY_TAIL_LENGTH (snd (for_await (on_event_pii penv) fullStream w))"
    by (rule preservesD[where I = "carry_within CARRY_TAIL_LENGTH", OF _ w]) (intro preserves_for_await on_event_pii_preserves rules)
  moreover have "carry_within CARRY_TAIL_LENGTH (snd (GuardrailStreamer_pii penv fullStream w))"
    by (rule preservesD[where I = "carry_within CARRY_TAIL_LENGTH", OF _ w]) (intro GuardrailStreamer_pii_carry)
  moreover have "carry_within CARRY_TAIL_LENGTH_sent (snd (validateAndFlush_sent penv buffer v))"
    by (rule preservesD[where I = "carry_within CARRY_TAIL_LENGTH_sent", OF _ v]) (intro validateAndFlush_sent_preserves rules)
  moreover have "carry_within CARRY_TAIL_LENGTH_sent (snd (for_await (on_event_sent penv) fullStream v))"
    by (rule preservesD[where I = "carry_within CARRY_TAIL_LENGTH_sent", OF _ v]) (intro preserves_for_await on_event_sent_preserves rules)
  moreover have "carry_within CARRY_TAIL_LENGTH_sent (snd (GuardrailStreamer_sent penv fullStream v))"
    by (rule preservesD[where I = "carry_within CARRY_TAIL_LENGTH_sent", OF _ v]) (intro GuardrailStreamer_sent_carry)
  ultimately show ?thesis by (simp add: carry_within_def)
qed

text \<open>A witness for C8: sessions from the fresh state with one delta of 70 characters.\<close>

theorem carryTail_within_window_witness:
  "length (carryTail (snd (GuardrailStreamer_conf
      \<lparr>generateObject = (\<lambda>n t. Some [Item contact ''x'']), fails = (\<lambda>n op. False)\<rparr>
      [Next (text_delta (replicate 70 CHR ''x''))] fresh))) \<le> CARRY_TAIL_LENGTH \<and>
   length (carryTail (snd (GuardrailStreamer_pii
      \<lparr>generateObject = (\<lambda>n t. None), fails = (\<lambda>n op. False)\<rparr>
      [Next (text_delta (replicate 70 CHR ''x''))] fresh))) \<le> CARRY_TAIL_LENGTH \<and>
   length (carryTail (snd (GuardrailStreamer_sent
      \<lparr>generateObject = (\<lambda>n t. None), fails = (\<lambda>n op. False)\<rparr>
      [Next (text_delta (replicate 70 CHR ''x''))] fresh))) \<le> CARRY_TAIL_LENGTH_sent"
proof -
  have 1: "length (carryTail fresh) \<le> CARRY_TAIL_LENGTH"
    and 2: "length (carryTail fresh) \<le> CARRY_TAIL_LENGTH_sent"
    by (simp_all add: fresh_def)
  from carryTail_within_window[OF 1 2,
      where env = "\<lparr>generateObject = (\<lambda>n t. Some [Item contact ''x'']), fails = (\<lambda>n op. False)\<rparr>"
        and penv = "\<lparr>generateObject = (\<lambda>n t. None), fails = (\<lambda>n op. False)\<rparr>"
        and fullStream = "[Next (text_delta (replicate 70 CHR ''x''))]"]
  show ?thesis by blast
qed


section \<open>The pending buffer and the flush policy\<close>

lemma pending_is_blind: "trace_blind (pending_is b)"
  by (simp add: trace_blind_def pending_is_def)

lemma pending_is_carry: "pending_is b w \<Longrightarrow> pending_is b (w\<lparr>carryTail := s\<rparr>)"
  by (simp add: pending_is_def)

lemma pendingBuffer_validateAndFlush:
  "pendingBuffer (snd (validateAndFlush_conf env buffer w)) = pendingBuffer w"
  "pendingBuffer (snd (validateAndFlush_pii penv buffer w)) = pendingBuffer w"
  "pendingBuffer (snd (validateAndFlush_sent penv buffer w)) = pendingBuffer w"
proof -
  have w: "pending_is (pendingBuffer w) w" by (simp add: pending_is_def)
  have "pending_is (pendingBuffer w) (snd (validateAndFlush_conf env buffer w))"
    by (rule preservesD[where I = "pending_is (pendingBuffer w)", OF _ w])
       (intro validateAndFlush_conf_preserves pending_is_blind pending_is_carry)
  then show "pendingBuffer (snd (validateAndFlush_conf env buffer w)) = pendingBuffer w"
    by (simp add: pending_is_def)
  have "pending_is (pendingBuffer w) (snd (validateAndFlush_pii penv buffer w))"
    by (rule preservesD[where I = "pending_is (pendingBuffer w)", OF _ w])
       (intro validateAndFlush_pii_preserves pending_is_blind pending_is_carry)
  then show "pendingBuffer (snd (validateAndFlush_pii penv buffer w)) = pendingBuffer w"
    by (simp add: pending_is_def)
  have "pending_is (pendingBuffer w) (snd (validateAndFlush_sent penv buffer w))"
    by (rule preservesD[where I = "pending_is (pendingBuffer w)", OF _ w])
       (intro validateAndFlush_sent_preserves pending_is_blind pending_is_carry)
  then show "pendingBuffer (snd (validateAndFlush_sent penv buffer w)) = pendingBuffer w"
    by (simp add: pending_is_def)
qed

lemma pendingBuffer_drain:
  "pendingBuffer (snd (drain_conf env w)) = pendingBuffer w"
  "pendingBuffer (snd (drain_pii penv w)) = pendingBuffer w"
  "pendingBuffer (snd (drain_sent penv w)) = pendingBuffer w"
proof -
  have w: "pending_is (pendingBuffer w) w" by (simp add: pending_is_def)
  have "pending_is (pendingBuffer w) (snd (drain_conf env w))"
    by (rule preservesD[where I = "pending_is (pendingBuffer w)", OF _ w])
       (intro drain_conf_preserves pending_is_blind pending_is_carry)
  then show "pendingBuffer (snd (drain_conf env w)) = pendingBuffer w"
    by (simp add: pending_is_def)
  have "pending_is (pendingBuffer w) (snd (drain_pii penv w))"
    by (rule preservesD[where I = "pending_is (pendingBuffer w)", OF _ w])
       (intro drain_pii_preserves pending_is_blind pending_is_carry)
  then show "pendingBuffer (snd (drain_pii penv w)) = pendingBuffer w"
    by (simp add: pending_is_def)
  have "pending_is (pendingBuffer w) (snd (drain_sent penv w))"
    by (rule preservesD[where I = "pending_is (pendingBuffer w)", OF _ w])
       (intro drain_sent_preserves pending_is_blind pending_is_carry)
  then show "pendingBuffer (snd (drain_sent penv w)) = pendingBuffer w"
    by (simp add: pending_is_def)
qed

lemma on_event_conf_delta:
  "on_event_conf env (text_delta text) w =
     (if CHAR_THRESHOLD \<le> length (pendingBuffer w @ text)
      then await (validateAndFlush_conf env (pendingBuffer w @ text))
             (\<lambda>_. await (modify (\<lambda>w. w\<lparr>pendingBuffer := []\<rparr>)) (\<lambda>_. return Continue))
             (w\<lparr>pendingBuffer := pendingBuffer w @ text\<rparr>)
      else (Inr Continue, w\<lparr>pendingBuffer := pendingBuffer w @ text\<rparr>))"
  by (simp add: on_event_conf_def io_defs split: prod.splits sum.splits)

lemma on_event_pii_delta:
  "on_event_pii env (text_delta text) w =
     (if CHAR_THRESHOLD \<le> length (pendingBuffer w @ text)
      then await (validateAndFlush_pii env (pendingBuffer w @ text))
             (\<lambda>_. await (modify (\<lambda>w. w\<lparr>pendingBuffer := []\<rparr>)) (\<lambda>_. return Continue))
             (w\<lparr>pendingBuffer := pendingBuffer w @ text\<rparr>)
      else (Inr Continue, w\<lparr>pendingBuffer := pendingBuffer w @ text\<rparr>))"
  by (simp add: on_event_pii_def io_defs split: prod.splits sum.splits)

lemma on_event_sent_delta:
  "on_event_sent env (text_delta text) w =
     (if CHAR_THRESHOLD \<le> length (pendingBuffer w @ text) \<or>
         SENTENCE_END_exec (pendingBuffer w @ text) \<noteq> None \<and>
         MIN_SENTENCE_CHARS \<le> length (pendingBuffer w @ text)
      then await (validateAndFlush_sent env (pendingBuffer w @ text))
             (\<lambda>_. await (modify (\<lambda>w. w\<lparr>pendingBuffer := []\<rparr>)) (\<lambda>_. return Continue))
             (w\<lparr>pendingBuffer := pendingBuffer w @ text\<rparr>)
      else (Inr Continue, w\<lparr>pendingBuffer := pendingBuffer w @ text\<rparr>))"
  by (auto simp add: on_event_sent_def io_defs Let_def split: prod.splits sum.splits)

lemma flush_then_clear:
  "fst (await flush (\<lambda>_. await (modify (\<lambda>w. w\<lparr>pendingBuffer := []\<rparr>)) (\<lambda>_. return Continue)) w) = Inr ctl
   \<Longrightarrow> pendingBuffer (snd (await flush (\<lambda>_. await (modify (\<lambda>w. w\<lparr>pendingBuffer := []\<rparr>)) (\<lambda>_. return Continue)) w)) = []"
  by (simp add: io_defs split: prod.splits sum.splits)

text \<open>
  Claim C7, as amended. In each driver \<open>validateAndFlush\<close> itself never changes
  \<open>pendingBuffer\<close>; when a delta brings the buffer to the threshold and the flush returns,
  the buffer is empty afterwards; the final draining flush leaves the buffer as it is.
\<close>

theorem pendingBuffer_cleared_after_threshold_flush:
  "pendingBuffer (snd (validateAndFlush_conf env buffer w)) = pendingBuffer w \<and>
   (fst (on_event_conf env (text_delta delta) w) = Inr ctl \<and>
      CHAR_THRESHOLD \<le> length (pendingBuffer w @ delta)
    \<longrightarrow> pendingBuffer (snd (on_event_conf env (text_delta delta) w)) = []) \<and>
   pendingBuffer (snd (drain_conf env w)) = pendingBuffer w \<and>
   pendingBuffer (snd (validateAndFlush_pii penv buffer w)) = pendingBuffer w \<and>
   (fst (on_event_pii penv (text_delta delta) w) = Inr ctl \<and>
      CHAR_THRESHOLD \<le> length (pendingBuffer w @ delta)
    \<longrightarrow> pendingBuffer (snd (on_event_pii penv (text_delta delta) w)) = []) \<and>
   pendingBuffer (snd (drain_pii penv w)) = pendingBuffer w \<and>
   pendingBuffer (snd (validateAndFlush_sent penv buffer w)) = pendingBuffer w \<and>
   (fst (on_event_sent penv (text_delta delta) w) = Inr ctl \<and>
      (CHAR_THRESHOLD \<le> length (pendingBuffer w @ delta) \<or>
       SENTENCE_END_exec (pendingBuffer w @ delta) \<noteq> None \<and>
       MIN_SENTENCE_CHARS \<le> length (pendingBuffer w @ delta))
    \<longrightarrow> pendingBuffer (snd (on_event_sent penv (text_delta delta) w)) = []) \<and>
   pendingBuffer (snd (drain_sent penv w)) = pendingBuffer w"
  using flush_then_clear[of "validateAndFlush_conf env (pendingBuffer w @ delta)" _ ctl]
        flush_then_clear[of "validateAndFlush_pii penv (pendingBuffer w @ delta)" _ ctl]
        flush_then_clear[of "validateAndFlush_sent penv (pendingBuffer w @ delta)" _ ctl]
  by (simp add: pendingBuffer_validateAndFlush pendingBuffer_drain
      on_event_conf_delta on_event_pii_delta on_event_sent_delta)

text \<open>A witness for C7: a delta of 200 characters in the fresh state.\<close>

theorem pendingBuffer_cleared_witness:
  "pendingBuffer (snd (on_event_conf \<lparr>generateObject = (\<lambda>n t. Some []), fails = (\<lambda>n op. False)\<rparr>
      (text_delta (replicate 200 CHR ''x'')) fresh)) = [] \<and>
   pendingBuffer (snd (on_event_pii \<lparr>generateObject = (\<lambda>n t. Some []), fails = (\<lambda>n op. False)\<rparr>
      (text_delta (replicate 200 CHR ''x'')) fresh)) = [] \<and>
   pendingBuffer (snd (on_event_sent \<lparr>generateObject = (\<lambda>n t. Some []), fails = (\<lambda>n op. False)\<rparr>
      (text_delta (replicate 200 CHR ''x'')) fresh)) = []"
proof -
  let ?env = "\<lparr>generateObject = (\<lambda>n t. Some []), fails = (\<lambda>n op. False)\<rparr> :: conf_type env"
  let ?penv = "\<lparr>generateObject = (\<lambda>n t. Some []), fails = (\<lambda>n op. False)\<rparr> :: pii_type env"
  let ?d = "replicate 200 CHR ''x''"
  have 1: "fst (on_event_conf ?env (text_delta ?d) fresh) = Inr Continue"
    and 2: "fst (on_event_pii ?penv (text_delta ?d) fresh) = Inr Continue"
    and 3: "fst (on_event_sent ?penv (text_delta ?d) fresh) = Inr Continue"
    and 4: "CHAR_THRESHOLD \<le> length (pendingBuffer fresh @ ?d)"
    by code_simp+
  from pendingBuffer_cleared_after_threshold_flush[where env = "?env" and penv = "?penv"
      and delta = "?d" and w = fresh and ctl = Continue] 1 2 3 4
  show ?thesis by blast
qed

text \<open>
  C7 as stated fails for the final draining flush: a session whose only delta is \<open>abc\<close>
  writes \<open>abc\<close> to the main stream in its draining flush and ends with \<open>abc\<close> still in
  \<open>pendingBuffer\<close>.
\<close>

theorem drain_leaves_pendingBuffer:
  "pendingBuffer (snd (GuardrailStreamer_conf
      \<lparr>generateObject = (\<lambda>n t. Some []), fails = (\<lambda>n op. False)\<rparr> [Next (text_delta ''abc'')] fresh))
     = ''abc'' \<and>
   chunks mainStream (trace (snd (GuardrailStreamer_conf
      \<lparr>generateObject = (\<lambda>n t. Some []), fails = (\<lambda>n op. False)\<rparr> [Next (text_delta ''abc'')] fresh)))
     = [''abc''] \<and>
   pendingBuffer (snd (GuardrailStreamer_sent
      \<lparr>generateObject = (\<lambda>n t. Some []), fails = (\<lambda>n op. False)\<rparr> [Next (text_delta ''abc'')] fresh))
     = ''abc'' \<and>
   chunks mainStream (trace (snd (GuardrailStreamer_sent
      \<lparr>generateObject = (\<lambda>n t. Some []), fails = (\<lambda>n op. False)\<rparr> [Next (text_delta ''abc'')] fresh)))
     = [''abc'']"
  by code_simp

lemma Bex_upt_Suc: "(\<exists>i\<in>{0..<Suc n}. P i) \<longleftrightarrow> P 0 \<or> (\<exists>j\<in>{0..<n}. P (Suc j))"
proof
  assume "\<exists>i\<in>{0..<Suc n}. P i"
  then obtain i where i: "i < Suc n" "P i" by auto
  then show "P 0 \<or> (\<exists>j\<in>{0..<n}. P (Suc j))" by (cases i) auto
next
  assume "P 0 \<or> (\<exists>j\<in>{0..<n}. P (Suc j))"
  then show "\<exists>i\<in>{0..<Suc n}. P i" by auto
qed

lemma SENTENCE_END_exec_iff:
  "SENTENCE_END_exec b \<noteq> None \<longleftrightarrow>
     (\<exists>i\<in>{0..<length b - 1}. b ! i \<in> {CHR ''.'', CHR ''!'', CHR ''?''} \<and> is_space (b ! Suc i))"
proof (induction b rule: SENTENCE_END_exec.induct)
  case (1 c d cs)
  have "(\<exists>i\<in>{0..<length (c # d # cs) - 1}.
           (c # d # cs) ! i \<in> {CHR ''.'', CHR ''!'', CHR ''?''} \<and> is_space ((c # d # cs) ! Suc i))
        \<longleftrightarrow> (c \<in> {CHR ''.'', CHR ''!'', CHR ''?''} \<and> is_space d) \<or>
            (\<exists>j\<in>{0..<length (d # cs) - 1}.
               (d # cs) ! j \<in> {CHR ''.'', CHR ''!'', CHR ''?''} \<and> is_space ((d # cs) ! Suc j))"
    using Bex_upt_Suc[of "length cs" "\<lambda>i. (c # d # cs) ! i \<in> {CHR ''.'', CHR ''!'', CHR ''?''} \<and> is_space ((c # d # cs) ! Suc i)"]
    by simp
  with 1 show ?case by auto
qed simp_all

lemma preserves_trace_at_least:
  "preserves (trace_at_least n) (stream_write env c s)"
  "preserves (trace_at_least n) (detectPII penv t)"
  "preserves (trace_at_least n) (modify (\<lambda>w. w\<lparr>carryTail := x\<rparr>))"
  by (simp_all add: preserves_def trace_at_least_def stream_write_def detectPII_def modify_def
      split: option.splits)

lemma await_get: "await (get f) g w = g (f w) w"
  by (simp add: await_def get_def)

lemma await_establishes:
  "Q (snd (m w)) \<Longrightarrow> (\<And>x. preserves Q (f x)) \<Longrightarrow> Q (snd (await m f w))"
  by (cases "m w") (auto simp: await_def preserves_def split: sum.splits)

lemma validateAndFlush_sent_extends:
  "length (trace w) < length (trace (snd (validateAndFlush_sent env buffer w)))"
proof -
  let ?Q = "trace_at_least (Suc (length (trace w)))"
  have "?Q (snd (validateAndFlush_sent env buffer w))"
    unfolding validateAndFlush_sent_def Let_def await_get
    by (rule await_establishes)
       (simp add: stream_write_def trace_at_least_def,
        intro preserves_await preserves_if preserves_return preserves_trace_at_least)
  then show ?thesis by (simp add: trace_at_least_def)
qed

text \<open>
  Claim C9. On a delta the driver with the sentence policy appends the delta and then
  flushes (and clears the buffer) exactly when the whole buffer meets the size-or-sentence
  policy as described; otherwise it only keeps the longer buffer. A flush shows in the
  effects, by its \<open>Checking\<close> line at least: the effects grow exactly when the policy is met.
\<close>

theorem size_or_sentence_flush:
  "on_event_sent env (text_delta delta) w =
     (if size_or_sentence (pendingBuffer w @ delta)
      then await (validateAndFlush_sent env (pendingBuffer w @ delta))
             (\<lambda>_. await (modify (\<lambda>w. w\<lparr>pendingBuffer := []\<rparr>)) (\<lambda>_. return Continue))
             (w\<lparr>pendingBuffer := pendingBuffer w @ delta\<rparr>)
      else (Inr Continue, w\<lparr>pendingBuffer := pendingBuffer w @ delta\<rparr>)) \<and>
   (size_or_sentence (pendingBuffer w @ delta) \<longleftrightarrow>
      trace (snd (on_event_sent env (text_delta delta) w)) \<noteq> trace w)"
proof -
  let ?b = "pendingBuffer w @ delta"
  let ?w1 = "w\<lparr>pendingBuffer := ?b\<rparr>"
  let ?flush = "await (validateAndFlush_sent env ?b)
             (\<lambda>_. await (modify (\<lambda>w. w\<lparr>pendingBuffer := []\<rparr>)) (\<lambda>_. return Continue))"
  have pol: "size_or_sentence ?b \<longleftrightarrow>
          CHAR_THRESHOLD \<le> length ?b \<or>
          SENTENCE_END_exec ?b \<noteq> None \<and> MIN_SENTENCE_CHARS \<le> length ?b"
    unfolding size_or_sentence_def SENTENCE_END_exec_iff CHAR_THRESHOLD_def MIN_SENTENCE_CHARS_def
    by blast
  then have eq: "on_event_sent env (text_delta delta) w =
      (if size_or_sentence ?b then ?flush ?w1 else (Inr Continue, ?w1))"
    by (simp only: on_event_sent_delta)
  have "trace (snd (?flush ?w1)) = trace (snd (validateAndFlush_sent env ?b ?w1))"
    by (cases "validateAndFlush_sent env ?b ?w1") (auto simp: io_defs split: sum.splits)
  then have "length (trace w) < length (trace (snd (?flush ?w1)))"
    using validateAndFlush_sent_extends[of ?w1 env ?b] by simp
  then have "trace (snd (?flush ?w1)) \<noteq> trace w" by auto
  with eq show ?thesis by simp
qed

section \<open>Failing open\<close>

lemma await_ok: "fst (m w) = Inr x \<Longrightarrow> await m f w = f x (snd (m w))"
  by (cases "m w") (simp add: await_def)

lemma detector_down_finds_nothing: "detector_down env \<Longrightarrow> finds_nothing env"
  by (simp add: detector_down_def finds_nothing_def)

text \<open>Both detectors catch the rejection of the model's call and hand back the empty list.\<close>

lemma detectors_fail_open:
  assumes "detector_down env" "detector_down penv"
  shows "fst (detectConfidential env t w) = Inr []"
    and "fst (detectPII penv t w) = Inr []"
  using assms by (simp_all add: detector_down_def detectConfidential_def detectPII_def return_def)

lemma detected_conf_nothing:
  assumes "finds_nothing env"
  shows "detected_conf env n t = []"
proof -
  from assms have "generateObject env n t = None \<or> generateObject env n t = Some []"
    by (simp add: finds_nothing_def)
  then show ?thesis by (auto simp: detected_conf_def)
qed

lemma detected_pii_nothing:
  assumes "finds_nothing env"
  shows "detected_pii env n t = []"
proof -
  from assms have "generateObject env n t = None \<or> generateObject env n t = Some []"
    by (simp add: finds_nothing_def)
  then show ?thesis by (auto simp: detected_pii_def)
qed

lemma never_found_lines:
  "\<not> prefix ''Found'' (checking_line t)" "\<not> prefix ''Found'' (emitted_line t)"
  "\<not> prefix ''Found'' (final_check_line t)"
  by (simp_all add: checking_line_def emitted_line_def final_check_line_def)

lemma flush_conf_unredacted:
  assumes "no_faults env" "finds_nothing env" "buffer \<noteq> []"
  shows "fst (validateAndFlush_conf env buffer w) = Inr ()"
    and "content mainStream (snd (validateAndFlush_conf env buffer w)) = content mainStream w @ buffer"
    and "pendingBuffer (snd (validateAndFlush_conf env buffer w)) = pendingBuffer w"
    and "never_found w \<Longrightarrow> never_found (snd (validateAndFlush_conf env buffer w))"
  using assms(3)
  by (simp_all add: validateAndFlush_conf_ok[OF assms(1)] detected_conf_nothing[OF assms(2)] content_def
      slice_from_def never_found_def never_found_lines)

lemma on_event_conf_other:
  "on_event_conf env finish w = (Inr Break, w)"
  "on_event_conf env other_event w = (Inr Continue, w)"
  by (simp_all add: on_event_conf_def io_defs)

lemma loop_conf_unredacted:
  assumes "no_faults env" "finds_nothing env"
  shows "fst (for_await (on_event_conf env) (map Next evs) w) = Inr () \<and>
         content mainStream (snd (for_await (on_event_conf env) (map Next evs) w))
           @ pendingBuffer (snd (for_await (on_event_conf env) (map Next evs) w))
           = content mainStream w @ pendingBuffer w @ raw_text evs \<and>
         (never_found w \<longrightarrow> never_found (snd (for_await (on_event_conf env) (map Next evs) w)))"
proof (induction evs arbitrary: w)
  case Nil
  then show ?case by (simp add: return_def)
next
  case (Cons ev evs)
  show ?case
  proof (cases ev)
    case (text_delta t)
    let ?b = "pendingBuffer w @ t"
    let ?w1 = "w\<lparr>pendingBuffer := ?b\<rparr>"
    show ?thesis
    proof (cases "CHAR_THRESHOLD \<le> length ?b")
      case True
      then have ne: "?b \<noteq> []" by (auto simp: CHAR_THRESHOLD_def)
      let ?w2 = "snd (validateAndFlush_conf env ?b ?w1)"
      let ?w3 = "?w2\<lparr>pendingBuffer := []\<rparr>"
      note fl = flush_conf_unredacted[OF assms ne, of ?w1]
      have step: "on_event_conf env (text_delta t) w = (Inr Continue, ?w3)"
        using True by (simp add: on_event_conf_delta
            await_ok[where m = "validateAndFlush_conf env ?b" and w = "?w1", OF fl(1)])
           (simp add: io_defs)
      have "content mainStream ?w3 = content mainStream w @ ?b"
        using fl(2) by (simp add: content_def)
      moreover have "never_found w \<Longrightarrow> never_found ?w3"
        using fl(4) by (simp add: never_found_def)
      ultimately show ?thesis
        using Cons.IH[of ?w3] text_delta by (simp add: step await_def)
    next
      case False
      then have step: "on_event_conf env (text_delta t) w = (Inr Continue, ?w1)"
        by (simp add: on_event_conf_delta)
      have "content mainStream ?w1 = content mainStream w" "never_found ?w1 = never_found w"
        by (simp_all add: content_def never_found_def)
      then show ?thesis
        using Cons.IH[of ?w1] text_delta by (simp add: step await_def)
    qed
  next
    case finish
    then show ?thesis by (simp add: on_event_conf_other await_def return_def)
  next
    case other_event
    then show ?thesis using Cons.IH[of w] by (simp add: on_event_conf_other await_def)
  qed
qed

lemma drain_conf_unredacted:
  assumes "no_faults env" "finds_nothing env"
  shows "fst (drain_conf env w) = Inr ()"
    and "content mainStream (snd (drain_conf env w)) = content mainStream w @ pendingBuffer w"
    and "never_found w \<Longrightarrow> never_found (snd (drain_conf env w))"
proof -
  let ?w1 = "w\<lparr>trace := trace w @ [Wrote auditStream (final_check_line (pendingBuffer w))]\<rparr>"
  have eq: "drain_conf env w =
      (if pendingBuffer w = [] then (Inr (), w) else validateAndFlush_conf env (pendingBuffer w) ?w1)"
    by (simp add: drain_conf_def io_defs stream_write_ok[OF assms(1)])
  show "fst (drain_conf env w) = Inr ()"
    by (simp add: eq flush_conf_unredacted[OF assms])
  show "content mainStream (snd (drain_conf env w)) = content mainStream w @ pendingBuffer w"
    by (simp add: eq flush_conf_unredacted[OF assms]) (simp add: content_def)
  show "never_found (snd (drain_conf env w))" if "never_found w"
  proof -
    have "never_found ?w1" using that by (simp add: never_found_def never_found_lines)
    then show ?thesis using that by (simp add: eq flush_conf_unredacted[OF assms])
  qed
qed

text \<open>
  The confidentiality driver with a detection model that finds nothing, on streams that do
  not fail and a generator that does not reject: the task returns, the main stream
  receives the raw deltas in order, and the audit stream never claims a finding.
\<close>

theorem unredacted_conf:
  assumes "no_faults env" "finds_nothing env"
  shows "fst (GuardrailStreamer_conf env (map Next evs) w) = Inr ()"
    and "content mainStream (snd (GuardrailStreamer_conf env (map Next evs) w))
           = content mainStream w @ raw_text evs"
    and "never_found w \<Longrightarrow> never_found (snd (GuardrailStreamer_conf env (map Next evs) w))"
proof -
  let ?w1 = "w\<lparr>trace := trace w @ [Wrote auditStream (''Starting confidentiality guardrail...'' @ newline)],
                pendingBuffer := [], carryTail := []\<rparr>"
  let ?w2 = "snd (for_await (on_event_conf env) (map Next evs) ?w1)"
  let ?w3 = "snd (drain_conf env ?w2)"
  let ?w4 = "?w3\<lparr>trace := trace ?w3 @ [Wrote auditStream (''Stream complete.'' @ newline),
                                           Closed mainStream, Closed auditStream]\<rparr>"
  note lp = loop_conf_unredacted[OF assms, of evs ?w1]
  note dr = drain_conf_unredacted[OF assms, of ?w2]
  have run: "GuardrailStreamer_conf env (map Next evs) w = (Inr (), ?w4)"
    using lp dr(1)
    by (simp add: GuardrailStreamer_conf_def try_catch_def stream_write_ok[OF assms(1)]
        stream_close_ok[OF assms(1)] await_ok modify_def)
  show "fst (GuardrailStreamer_conf env (map Next evs) w) = Inr ()" by (simp add: run)
  have "content mainStream ?w1 = content mainStream w" by (simp add: content_def)
  with lp dr(2) show "content mainStream (snd (GuardrailStreamer_conf env (map Next evs) w))
           = content mainStream w @ raw_text evs"
    by (simp add: run) (simp add: content_def)
  show "never_found (snd (GuardrailStreamer_conf env (map Next evs) w))" if "never_found w"
  proof -
    have "never_found ?w1" using that by (simp add: never_found_def)
    with lp have "never_found ?w2" by simp
    then have "never_found ?w3" by (rule dr(3))
    then show ?thesis by (simp add: run) (simp add: never_found_def)
  qed
qed

lemma flush_pii_unredacted:
  assumes "no_faults env" "finds_nothing env" "buffer \<noteq> []"
  shows "fst (validateAndFlush_pii env buffer w) = Inr ()"
    and "content mainStream (snd (validateAndFlush_pii env buffer w)) = content mainStream w @ buffer"
    and "pendingBuffer (snd (validateAndFlush_pii env buffer w)) = pendingBuffer w"
    and "never_found w \<Longrightarrow> never_found (snd (validateAndFlush_pii env buffer w))"
  using assms(3)
  by (simp_all add: validateAndFlush_pii_ok[OF assms(1)] detected_pii_nothing[OF assms(2)] content_def
      slice_from_def never_found_def never_found_lines)

lemma on_event_pii_other:
  "on_event_pii env finish w = (Inr Break, w)"
  "on_event_pii env other_event w = (Inr Continue, w)"
  by (simp_all add: on_event_pii_def io_defs)

lemma loop_pii_unredacted:
  assumes "no_faults env" "finds_nothing env"
  shows "fst (for_await (on_event_pii env) (map Next evs) w) = Inr () \<and>
         content mainStream (snd (for_await (on_event_pii env) (map Next evs) w))
           @ pendingBuffer (snd (for_await (on_event_pii env) (map Next evs) w))
           = content mainStream w @ pendingBuffer w @ raw_text evs \<and>
         (never_found w \<longrightarrow> never_found (snd (for_await (on_event_pii env) (map Next evs) w)))"
proof (induction evs arbitrary: w)
  case Nil
  then show ?case by (simp add: return_def)
next
  case (Cons ev evs)
  show ?case
  proof (cases ev)
    case (text_delta t)
    let ?b = "pendingBuffer w @ t"
    let ?w1 = "w\<lparr>pendingBuffer := ?b\<rparr>"
    show ?thesis
    proof (cases "CHAR_THRESHOLD \<le> length ?b")
      case True
      then have ne: "?b \<noteq> []" by (auto simp: CHAR_THRESHOLD_def)
      let ?w2 = "snd (validateAndFlush_pii env ?b ?w1)"
      let ?w3 = "?w2\<lparr>pendingBuffer := []\<rparr>"
      note fl = flush_pii_unredacted[OF assms ne, of ?w1]
      have step: "on_event_pii env (text_delta t) w = (Inr Continue, ?w3)"
        using True by (simp add: on_event_pii_delta
            await_ok[where m = "validateAndFlush_pii env ?b" and w = "?w1", OF fl(1)])
           (simp add: io_defs)
      have "content mainStream ?w3 = content mainStream w @ ?b"
        using fl(2) by (simp add: content_def)
      moreover have "never_found w \<Longrightarrow> never_found ?w3"
        using fl(4) by (simp add: never_found_def)
      ultimately show ?thesis
        using Cons.IH[of ?w3] text_delta by (simp add: step await_def)
    next
      case False
      then have step: "on_event_pii env (text_delta t) w = (Inr Continue, ?w1)"
        by (simp add: on_event_pii_delta)
      have "content mainStream ?w1 = content mainStream w" "never_found ?w1 = never_found w"
        by (simp_all add: content_def never_found_def)
      then show ?thesis
        using Cons.IH[of ?w1] text_delta by (simp add: step await_def)
    qed
  next
    case finish
    then show ?thesis by (simp add: on_event_pii_other await_def return_def)
  next
    case other_event
    then show ?thesis using Cons.IH[of w] by (simp add: on_event_pii_other await_def)
  qed
qed

lemma drain_pii_unredacted:
  assumes "no_faults env" "finds_nothing env"
  shows "fst (drain_pii env w) = Inr ()"
    and "content mainStream (snd (drain_pii env w)) = content mainStream w @ pendingBuffer w"
    and "never_found w \<Longrightarrow> never_found (snd (drain_pii env w))"
proof -
  let ?w1 = "w\<lparr>trace := trace w @ [Wrote auditStream (final_check_line (pendingBuffer w))]\<rparr>"
  have eq: "drain_pii env w =
      (if pendingBuffer w = [] then (Inr (), w) else validateAndFlush_pii env (pendingBuffer w) ?w1)"
    by (simp add: drain_pii_def io_defs stream_write_ok[OF assms(1)])
  show "fst (drain_pii env w) = Inr ()"
    by (simp add: eq flush_pii_unredacted[OF assms])
  show "content mainStream (snd (drain_pii env w)) = content mainStream w @ pendingBuffer w"
    by (simp add: eq flush_pii_unredacted[OF assms]) (simp add: content_def)
  show "never_found (snd (drain_pii env w))" if "never_found w"
  proof -
    have "never_found ?w1" using that by (simp add: never_found_def never_found_lines)
    then show ?thesis using that by (simp add: eq flush_pii_unredacted[OF assms])
  qed
qed

text \<open>The same for the PII driver that emits increments.\<close>

theorem unredacted_pii:
  assumes "no_faults env" "finds_nothing env"
  shows "fst (GuardrailStreamer_pii env (map Next evs) w) = Inr ()"
    and "content mainStream (snd (GuardrailStreamer_pii env (map Next evs) w))
           = content mainStream w @ raw_text evs"
    and "never_found w \<Longrightarrow> never_found (snd (GuardrailStreamer_pii env (map Next evs) w))"
proof -
  let ?w1 = "w\<lparr>trace := trace w @ [Wrote auditStream (''Starting PII guardrail...'' @ newline)],
                pendingBuffer := [], carryTail := []\<rparr>"
  let ?w2 = "snd (for_await (on_event_pii env) (map Next evs) ?w1)"
  let ?w3 = "snd (drain_pii env ?w2)"
  let ?w4 = "?w3\<lparr>trace := trace ?w3 @ [Wrote auditStream (''Stream complete.'' @ newline),
                                           Closed mainStream, Closed auditStream]\<rparr>"
  note lp = loop_pii_unredacted[OF assms, of evs ?w1]
  note dr = drain_pii_unredacted[OF assms, of ?w2]
  have run: "GuardrailStreamer_pii env (map Next evs) w = (Inr (), ?w4)"
    using lp dr(1)
    by (simp add: GuardrailStreamer_pii_def try_catch_def stream_write_ok[OF assms(1)]
        stream_close_ok[OF assms(1)] await_ok modify_def)
  show "fst (GuardrailStreamer_pii env (map Next evs) w) = Inr ()" by (simp add: run)
  have "content mainStream ?w1 = content mainStream w" by (simp add: content_def)
  with lp dr(2) show "content mainStream (snd (GuardrailStreamer_pii env (map Next evs) w))
           = content mainStream w @ raw_text evs"
    by (simp add: run) (simp add: content_def)
  show "never_found (snd (GuardrailStreamer_pii env (map Next evs) w))" if "never_found w"
  proof -
    have "never_found ?w1" using that by (simp add: never_found_def)
    with lp have "never_found ?w2" by simp
    then have "never_found ?w3" by (rule dr(3))
    then show ?thesis by (simp add: run) (simp add: never_found_def)
  qed
qed

text \<open>
  Failing open: the two drivers that emit increments pass the generator's text through
  when the detection model is down.
\<close>

theorem fail_open_conf:
  assumes "no_faults env" "detector_down env"
  shows "fst (GuardrailStreamer_conf env (map Next evs) w) = Inr ()"
    and "content mainStream (snd (GuardrailStreamer_conf env (map Next evs) w))
           = content mainStream w @ raw_text evs"
    and "never_found w \<Longrightarrow> never_found (snd (GuardrailStreamer_conf env (map Next evs) w))"
  using unredacted_conf[OF assms(1) detector_down_finds_nothing[OF assms(2)]] by blast+

theorem fail_open_pii:
  assumes "no_faults env" "detector_down env"
  shows "fst (GuardrailStreamer_pii env (map Next evs) w) = Inr ()"
    and "content mainStream (snd (GuardrailStreamer_pii env (map Next evs) w))
           = content mainStream w @ raw_text evs"
    and "never_found w \<Longrightarrow> never_found (snd (GuardrailStreamer_pii env (map Next evs) w))"
  using unredacted_pii[OF assms(1) detector_down_finds_nothing[OF assms(2)]] by blast+

section \<open>The error path\<close>

text \<open>
  The catch block of the PII drivers tries both closes and returns, provided its own write
  to the audit stream goes through; when that write fails, no close is tried.
\<close>

lemma on_error_pii_closes_both:
  assumes "\<not> fails env (Suc (length (trace w))) (Write auditStream)"
  shows "fst (on_error_pii env e w) = Inr ()"
    and "close_attempts (trace (snd (on_error_pii env e w))) =
           close_attempts (trace w) @ [mainStream, auditStream]"
  using assms by (simp_all add: on_error_pii_def io_defs stream_write_def stream_close_def)

lemma on_error_pii_write_fails:
  assumes "fails env (Suc (length (trace w))) (Write auditStream)"
  shows "fst (on_error_pii env e w) = Inl (WriteError auditStream)"
    and "close_attempts (trace (snd (on_error_pii env e w))) = close_attempts (trace w)"
  using assms by (simp_all add: on_error_pii_def io_defs stream_write_def stream_close_def)

text \<open>
  The catch block of the confidentiality driver stops at a failing close of the main
  stream.
\<close>

lemma on_error_conf_main_close_fails:
  assumes "fails env (Suc (length (trace w))) (Close mainStream)"
  shows "fst (on_error_conf env e w) = Inl (CloseError mainStream)"
    and "close_attempts (trace (snd (on_error_conf env e w))) = close_attempts (trace w) @ [mainStream]"
  using assms by (simp_all add: on_error_conf_def io_defs stream_write_def stream_close_def)

section \<open>Sessions on concrete streams\<close>

text \<open>
  Claim C1 on the driver with the sentence policy: the detector finds nothing, the first
  delta of 80 characters ends a sentence and is flushed, and the draining flush of \<open>b\<close>
  writes the 32 characters of the carry tail to the main stream a second time.
\<close>

theorem overlap_emitted_again:
  "chunks mainStream (trace (snd (GuardrailStreamer_sent
      \<lparr>generateObject = (\<lambda>n t. Some []), fails = (\<lambda>n op. False)\<rparr>
      [Next (text_delta (replicate 78 CHR ''a'' @ ''. '')), Next (text_delta ''b''), Next finish]
      fresh)))
   = [replicate 78 CHR ''a'' @ ''. '', replicate 30 CHR ''a'' @ ''. b''] \<and>
   length (content mainStream (snd (GuardrailStreamer_sent
      \<lparr>generateObject = (\<lambda>n t. Some []), fails = (\<lambda>n op. False)\<rparr>
      [Next (text_delta (replicate 78 CHR ''a'' @ ''. '')), Next (text_delta ''b''), Next finish]
      fresh))) = 113 \<and>
   length (raw_text [text_delta (replicate 78 CHR ''a'' @ ''. ''), text_delta ''b'', finish]) = 81"
  by code_simp

text \<open>
  Claim C2 on the driver with the sentence policy: every call of the detection model
  rejects, and the main stream ends with 233 characters where the generator sent 201, the
  32 characters of the carry tail being written twice.
\<close>

theorem fail_open_overlap_emitted_again:
  "content mainStream (snd (GuardrailStreamer_sent
      \<lparr>generateObject = (\<lambda>n t. None), fails = (\<lambda>n op. False)\<rparr>
      [Next (text_delta (replicate 200 CHR ''x'')), Next (text_delta ''y'')]
      fresh))
   = replicate 200 CHR ''x'' @ replicate 32 CHR ''x'' @ ''y'' \<and>
   raw_text [text_delta (replicate 200 CHR ''x''), text_delta ''y''] = replicate 200 CHR ''x'' @ ''y''"
  by code_simp

text \<open>
  Claim C6 on the confidentiality driver: the generator rejects and closing the main
  stream fails. The close of the audit stream is never tried, and the task rejects with
  the close's error.
\<close>

theorem unwrapped_close_skips_audit:
  "fst (GuardrailStreamer_conf
      \<lparr>generateObject = (\<lambda>n t. Some []), fails = (\<lambda>n op. op = Close mainStream)\<rparr> [Rejects] fresh)
     = Inl (CloseError mainStream) \<and>
   close_attempts (trace (snd (GuardrailStreamer_conf
      \<lparr>generateObject = (\<lambda>n t. Some []), fails = (\<lambda>n op. op = Close mainStream)\<rparr> [Rejects] fresh)))
     = [mainStream] \<and>
   trace (snd (GuardrailStreamer_conf
      \<lparr>generateObject = (\<lambda>n t. Some []), fails = (\<lambda>n op. op = Close mainStream)\<rparr> [Rejects] fresh))
     = [Wrote auditStream (''Starting confidentiality guardrail...'' @ newline),
        Errored ''Streaming error: %o'', CloseFailed mainStream]"
  by code_simp

text \<open>
  The increment is cut by the length of the carry tail. When a span lies across the
  boundary, its marker replaces text on both sides of the cut, and the increment starts
  inside the marker: here the first flush has written \<open>jo\<close>, and the draining flush writes
  the marker without its first two characters.
\<close>

lemma marker_cut_at_boundary:
  "chunks mainStream (trace (snd (GuardrailStreamer_pii
      \<lparr>generateObject =
         (\<lambda>n t. if sublist ''john@x.com'' t then Some [Item email ''john@x.com''] else Some []),
       fails = (\<lambda>n op. False)\<rparr>
      [Next (text_delta (replicate 186 CHR ''a'' @ ''my email is jo'')),
       Next (text_delta ''hn@x.com ok'')]
      fresh)))
   = [replicate 186 CHR ''a'' @ ''my email is jo'', ''EDACTED:EMAIL] ok'']"
  by code_simp

end
